theory Spec2Isabelle
  imports Main "HOL-Library.Sublist"
begin

section \<open>Reflected values\<close>

text \<open>
  The program walks Go values through package \<^verbatim>\<open>reflect\<close>. A reflected value is
  its contents together with the flag bits the program's calls depend on: whether the
  value is addressable, and the two read-only bits of a value that was reached through an
  unexported struct field. Contents are a tree: a pointer holds its pointee, a slice its
  elements, so values with sharing or cycles are outside the model.
\<close>

datatype Kind =
    Invalid | Int_kind | String | Struct | Array | Slice | Map | Ptr
  | Other string

text \<open>
  \<^verbatim>\<open>Int_kind\<close> is \<^verbatim>\<open>reflect.Int\<close>. \<^verbatim>\<open>Other k\<close> stands for each remaining kind of \<^verbatim>\<open>reflect\<close> (Bool, Int8, Uint,
  Float64, Interface, Chan, Func, ...), by its name; no switch of the program names one
  of them.

  \<^verbatim>\<open>reflect.StructField\<close>: the declared name, the package path (empty exactly for an
  exported field), the declared type as \<^verbatim>\<open>%v\<close> prints it, the tag as its
  key/payload pairs in the order written, and whether the field is embedded.
\<close>

record StructField =
  Name :: string
  PkgPath :: string
  Type :: string
  Tag :: "(string \<times> string) list"
  Anonymous :: bool

text \<open>
  Contents. A struct lists its fields in declaration order, each with its descriptor; a
  map lists its entries in the order \<^verbatim>\<open>MapKeys\<close> returns the keys in this run;
  \<^verbatim>\<open>DOther k s\<close> is a value of kind \<^verbatim>\<open>Other k\<close> that \<^verbatim>\<open>%v\<close> prints as \<open>s\<close>
  when its type has no method for printing;
  \<^verbatim>\<open>DInvalid\<close> is the zero \<^verbatim>\<open>reflect.Value\<close>.
\<close>

datatype Data =
    DInvalid
  | DInt int
  | DString string
  | DOther string string
  | DStruct "(StructField \<times> Data) list"
  | DArray "Data list"
  | DSlice "Data list"
  | DMap "(Data \<times> Data) list"
  | DPtr "Data option"

record Value =
  data :: Data
  flagAddr :: bool
  flagStickyRO :: bool
  flagEmbedRO :: bool

text \<open>\<^verbatim>\<open>flagRO\<close>: either read-only bit.\<close>

definition flagRO :: "Value \<Rightarrow> bool" where
  "flagRO v \<longleftrightarrow> flagStickyRO v \<or> flagEmbedRO v"

fun Kind_of :: "Data \<Rightarrow> Kind" where
  "Kind_of DInvalid = Invalid"
| "Kind_of (DInt n) = Int_kind"
| "Kind_of (DString s) = String"
| "Kind_of (DOther k s) = Other k"
| "Kind_of (DStruct fs) = Struct"
| "Kind_of (DArray xs) = Array"
| "Kind_of (DSlice xs) = Slice"
| "Kind_of (DMap kvs) = Map"
| "Kind_of (DPtr p) = Ptr"

definition Kind :: "Value \<Rightarrow> Kind" where
  "Kind v = Kind_of (data v)"

text \<open>
  \<^verbatim>\<open>reflect.ValueOf(v)\<close> holds a copy of \<open>v\<close>: not addressable, not read-only.
\<close>

definition ValueOf :: "Data \<Rightarrow> Value" where
  "ValueOf v = \<lparr>data = v, flagAddr = False, flagStickyRO = False, flagEmbedRO = False\<rparr>"

text \<open>
  \<^verbatim>\<open>val.Field(i)\<close>, for the field with descriptor \<open>f\<close> and contents \<open>d\<close>: addressable
  when the struct is. The sticky bit is inherited, and set for an unexported field that
  is not embedded; the embed bit is set for an unexported embedded field and not
  inherited, so that the exported fields of an embedded struct are not read-only.
\<close>

definition Value_Field :: "Value \<Rightarrow> StructField \<Rightarrow> Data \<Rightarrow> Value" where
  "Value_Field val f d =
     \<lparr>data = d, flagAddr = flagAddr val,
      flagStickyRO = (flagStickyRO val \<or> (PkgPath f \<noteq> [] \<and> \<not> Anonymous f)),
      flagEmbedRO = (PkgPath f \<noteq> [] \<and> Anonymous f)\<rparr>"

text \<open>
  \<^verbatim>\<open>val.Index(i)\<close>, for the element with contents \<open>d\<close>: an element of a slice is
  always addressable, an element of an array when the array is; read-only (sticky) when
  the sequence is.
\<close>

definition Index :: "Value \<Rightarrow> Data \<Rightarrow> Value" where
  "Index val d =
     \<lparr>data = d, flagAddr = (Kind val = Slice \<or> flagAddr val),
      flagStickyRO = flagRO val, flagEmbedRO = False\<rparr>"

text \<open>\<^verbatim>\<open>val.MapIndex(key)\<close> returns a copy of the entry's value: never addressable.\<close>

definition MapIndex :: "Value \<Rightarrow> Data \<Rightarrow> Value" where
  "MapIndex val d =
     \<lparr>data = d, flagAddr = False, flagStickyRO = flagRO val, flagEmbedRO = False\<rparr>"

text \<open>
  \<^verbatim>\<open>val.Elem()\<close> of a pointer: the zero Value for a nil pointer, else the pointee,
  which is addressable and keeps the read-only bits of the pointer.
\<close>

definition Elem :: "Value \<Rightarrow> Value" where
  "Elem val = (case data val of
       DPtr (Some d) \<Rightarrow>
         \<lparr>data = d, flagAddr = True, flagStickyRO = flagStickyRO val,
          flagEmbedRO = flagEmbedRO val\<rparr>
     | _ \<Rightarrow> \<lparr>data = DInvalid, flagAddr = False, flagStickyRO = False, flagEmbedRO = False\<rparr>)"

section \<open>Errors, panics and handlers\<close>

text \<open>
  An \<^verbatim>\<open>error\<close> of the program is either the message \<^verbatim>\<open>fmt.Errorf\<close> built or a
  \<^verbatim>\<open>*strconv.NumError\<close> with its fields \<^verbatim>\<open>Func\<close>, \<^verbatim>\<open>Num\<close> and \<^verbatim>\<open>Err\<close>.
  A call ends with \<^verbatim>\<open>nil\<close>, with an error, or in a panic.
\<close>

datatype error = errorString string | NumError string string string

datatype outcome = Success | Failure error | Panic string

text \<open>
  \<^verbatim>\<open>HandlerFn func(value reflect.Value, field reflect.StructField) error\<close>. What the
  callback does to the field in place is the second component: the contents of the field
  when the callback has ended.
\<close>

type_synonym HandlerFn = "Value \<Rightarrow> StructField \<Rightarrow> outcome \<times> Data"

text \<open>
  What a walk leaves behind: how it ended, the callback invocations it made in the order
  it made them, and the contents of what it walked after the callbacks' effects.
\<close>

record 'a walked =
  result :: outcome
  calls :: "(Value \<times> StructField) list"
  after :: 'a

section \<open>The walker\<close>

text \<open>
  \<^verbatim>\<open>handleStruct\<close>: \<^verbatim>\<open>for i := 0; i < val.NumField(); i++\<close>, as recursion over the
  fields from \<open>i\<close> on. \<open>hv\<close> is \<^verbatim>\<open>th.handleValue\<close>. \<^verbatim>\<open>NumField\<close> panics on a value
  that is not a struct.
\<close>

fun handleStruct_loop ::
  "(Value \<Rightarrow> Data walked option) \<Rightarrow> HandlerFn \<Rightarrow> Value \<Rightarrow> (StructField \<times> Data) list
    \<Rightarrow> (StructField \<times> Data) list walked option" where
  "handleStruct_loop hv th val [] = Some \<lparr>result = Success, calls = [], after = []\<rparr>"
| "handleStruct_loop hv th val ((f, d) # rest) =
    (let fv = Value_Field val f d; r = th fv f in
     if fst r \<noteq> Success
     then Some \<lparr>result = fst r, calls = [(fv, f)], after = (f, snd r) # rest\<rparr>
     else case hv (fv\<lparr>data := snd r\<rparr>) of
         None \<Rightarrow> None
       | Some w \<Rightarrow>
           if result w \<noteq> Success
           then Some \<lparr>result = result w, calls = (fv, f) # calls w,
                       after = (f, after w) # rest\<rparr>
           else case handleStruct_loop hv th val rest of
               None \<Rightarrow> None
             | Some ws \<Rightarrow> Some \<lparr>result = result ws, calls = (fv, f) # calls w @ calls ws,
                                 after = (f, after w) # after ws\<rparr>)"

definition handleStruct ::
  "(Value \<Rightarrow> Data walked option) \<Rightarrow> HandlerFn \<Rightarrow> Value \<Rightarrow> Data walked option" where
  "handleStruct hv th val = (case data val of
       DStruct fs \<Rightarrow> map_option (\<lambda>w. \<lparr>result = result w, calls = calls w, after = DStruct (after w)\<rparr>)
                       (handleStruct_loop hv th val fs)
     | _ \<Rightarrow> Some \<lparr>result = Panic ''reflect: call of reflect.Value.NumField on non-struct Value'',
                   calls = [], after = data val\<rparr>)"

text \<open>\<^verbatim>\<open>handleArray\<close>: \<^verbatim>\<open>for i := 0; i < val.Len(); i++\<close>.\<close>

fun handleArray_loop ::
  "(Value \<Rightarrow> Data walked option) \<Rightarrow> Value \<Rightarrow> Data list \<Rightarrow> Data list walked option" where
  "handleArray_loop hv val [] = Some \<lparr>result = Success, calls = [], after = []\<rparr>"
| "handleArray_loop hv val (d # rest) =
    (case hv (Index val d) of
       None \<Rightarrow> None
     | Some w \<Rightarrow>
         if result w \<noteq> Success
         then Some \<lparr>result = result w, calls = calls w, after = after w # rest\<rparr>
         else case handleArray_loop hv val rest of
             None \<Rightarrow> None
           | Some ws \<Rightarrow> Some \<lparr>result = result ws, calls = calls w @ calls ws,
                               after = after w # after ws\<rparr>)"

definition handleArray :: "(Value \<Rightarrow> Data walked option) \<Rightarrow> Value \<Rightarrow> Data walked option" where
  "handleArray hv val = (case data val of
       DArray xs \<Rightarrow> map_option (\<lambda>w. \<lparr>result = result w, calls = calls w, after = DArray (after w)\<rparr>)
                      (handleArray_loop hv val xs)
     | DSlice xs \<Rightarrow> map_option (\<lambda>w. \<lparr>result = result w, calls = calls w, after = DSlice (after w)\<rparr>)
                      (handleArray_loop hv val xs)
     | _ \<Rightarrow> Some \<lparr>result = Panic ''reflect: call of reflect.Value.Len on non-sequence Value'',
                   calls = [], after = data val\<rparr>)"

text \<open>
  \<^verbatim>\<open>handleMap\<close>: \<^verbatim>\<open>for _, key := range val.MapKeys()\<close>; \<^verbatim>\<open>val.MapIndex(key)\<close> is
  the value of the entry with that key.
\<close>

fun handleMap_loop ::
  "(Value \<Rightarrow> Data walked option) \<Rightarrow> Value \<Rightarrow> (Data \<times> Data) list
    \<Rightarrow> (Data \<times> Data) list walked option" where
  "handleMap_loop hv val [] = Some \<lparr>result = Success, calls = [], after = []\<rparr>"
| "handleMap_loop hv val ((key, d) # rest) =
    (case hv (MapIndex val d) of
       None \<Rightarrow> None
     | Some w \<Rightarrow>
         if result w \<noteq> Success
         then Some \<lparr>result = result w, calls = calls w, after = (key, after w) # rest\<rparr>
         else case handleMap_loop hv val rest of
             None \<Rightarrow> None
           | Some ws \<Rightarrow> Some \<lparr>result = result ws, calls = calls w @ calls ws,
                               after = (key, after w) # after ws\<rparr>)"

definition handleMap :: "(Value \<Rightarrow> Data walked option) \<Rightarrow> Value \<Rightarrow> Data walked option" where
  "handleMap hv val = (case data val of
       DMap kvs \<Rightarrow> map_option (\<lambda>w. \<lparr>result = result w, calls = calls w, after = DMap (after w)\<rparr>)
                     (handleMap_loop hv val kvs)
     | _ \<Rightarrow> Some \<lparr>result = Panic ''reflect: call of reflect.Value.MapKeys on non-map Value'',
                   calls = [], after = data val\<rparr>)"

text \<open>
  \<^verbatim>\<open>handleValue\<close>. The first argument bounds the depth of the calls of
  \<^verbatim>\<open>handleValue\<close> within one another; \<open>None\<close> is a walk that needs more. A callback may
  put a deeper value into the field it is given, and the walk goes into what it finds
  there, so no bound is known before the walk.
\<close>

fun handleValue :: "nat \<Rightarrow> HandlerFn \<Rightarrow> Value \<Rightarrow> Data walked option" where
  "handleValue 0 th val = None"
| "handleValue (Suc n) th val =
    (case Kind val of
       Struct \<Rightarrow> handleStruct (handleValue n th) th val
     | Array \<Rightarrow> handleArray (handleValue n th) val
     | Slice \<Rightarrow> handleArray (handleValue n th) val
     | Map \<Rightarrow> handleMap (handleValue n th) val
     | Ptr \<Rightarrow> map_option
         (\<lambda>w. \<lparr>result = result w, calls = calls w,
               after = (case data val of DPtr (Some d) \<Rightarrow> DPtr (Some (after w)) | x \<Rightarrow> x)\<rparr>)
         (handleValue n th (Elem val))
     | _ \<Rightarrow> Some \<lparr>result = Success, calls = [], after = data val\<rparr>)"

text \<open>\<^verbatim>\<open>Handle\<close>: \<^verbatim>\<open>th.handleValue(reflect.ValueOf(v))\<close>.\<close>

definition Handle :: "nat \<Rightarrow> HandlerFn \<Rightarrow> Data \<Rightarrow> Data walked option" where
  "Handle n th v = handleValue n th (ValueOf v)"

section \<open>Library calls of the handlers\<close>

text \<open>\<^verbatim>\<open>field.Tag.Lookup(key)\<close>: the payload of the first pair with that key.\<close>

definition Lookup :: "(string \<times> string) list \<Rightarrow> string \<Rightarrow> string option" where
  "Lookup tag key = map_of tag key"

text \<open>
  \<^verbatim>\<open>strconv.Atoi\<close> on a platform whose \<^verbatim>\<open>int\<close> has 64 bits: an optional sign, then
  decimal digits only, read by \<^verbatim>\<open>ParseUint\<close> into an unsigned 64-bit accumulator; the
  result has to fit \<^verbatim>\<open>int64\<close>. The error is a \<^verbatim>\<open>NumError\<close> that names the
  function and the input.
\<close>

definition isDigit :: "char \<Rightarrow> bool" where
  "isDigit c \<longleftrightarrow> 48 \<le> (of_char c :: int) \<and> (of_char c :: int) \<le> 57"

definition ErrSyntax :: string where
  "ErrSyntax = ''invalid syntax''"

definition ErrRange :: string where
  "ErrRange = ''value out of range''"

definition maxUint64 :: int where
  "maxUint64 = 18446744073709551615"

fun ParseUint_loop :: "int \<Rightarrow> string \<Rightarrow> string + int" where
  "ParseUint_loop n [] = Inr n"
| "ParseUint_loop n (c # cs) =
    (if \<not> isDigit c then Inl ErrSyntax
     else if n \<ge> maxUint64 div 10 + 1 then Inl ErrRange
     else if n * 10 + (of_char c - 48) > maxUint64 then Inl ErrRange
     else ParseUint_loop (n * 10 + (of_char c - 48)) cs)"

definition ParseUint :: "string \<Rightarrow> string + int" where
  "ParseUint s = (if s = [] then Inl ErrSyntax else ParseUint_loop 0 s)"

definition ParseInt :: "string \<Rightarrow> string + int" where
  "ParseInt s =
    (if s = [] then Inl ErrSyntax
     else let neg = (hd s = CHR ''-'');
              s1 = (if hd s = CHR ''+'' \<or> hd s = CHR ''-'' then tl s else s)
          in case ParseUint s1 of
               Inl e \<Rightarrow> Inl e
             | Inr un \<Rightarrow>
                 if \<not> neg \<and> un \<ge> 9223372036854775808 then Inl ErrRange
                 else if neg \<and> un > 9223372036854775808 then Inl ErrRange
                 else Inr (if neg then - un else un))"

definition Atoi :: "string \<Rightarrow> error + int" where
  "Atoi s = (case ParseInt s of Inl e \<Rightarrow> Inl (NumError ''Atoi'' s e) | Inr n \<Rightarrow> Inr n)"

text \<open>
  \<^verbatim>\<open>mustBeAssignable\<close> of \<^verbatim>\<open>reflect\<close>: the panic, if any, of a setter called on
  the value.
\<close>

definition mustBeAssignable :: "string \<Rightarrow> Value \<Rightarrow> string option" where
  "mustBeAssignable fn v =
    (if Kind v = Invalid then Some (''reflect: call of '' @ fn @ '' on zero Value'')
     else if flagRO v
       then Some (''reflect: '' @ fn @ '' using value obtained using unexported field'')
     else if \<not> flagAddr v then Some (''reflect: '' @ fn @ '' using unaddressable value'')
     else None)"

text \<open>
  \<^verbatim>\<open>value.SetString(x)\<close> and \<^verbatim>\<open>value.SetInt(x)\<close>, the latter for kind
  \<^verbatim>\<open>reflect.Int\<close> (the sized integer kinds are among the \<^verbatim>\<open>Other\<close> kinds, where
  the program never calls it). The last branch of each is the panic of the kind check,
  which the switch of \<^verbatim>\<open>setValue\<close> keeps out of reach.
\<close>

definition SetString :: "Value \<Rightarrow> string \<Rightarrow> outcome \<times> Data" where
  "SetString v x =
    (case mustBeAssignable ''reflect.Value.SetString'' v of
       Some p \<Rightarrow> (Panic p, data v)
     | None \<Rightarrow>
         if Kind v = String then (Success, DString x)
         else (Panic ''reflect: call of reflect.Value.SetString on non-string Value'', data v))"

definition SetInt :: "Value \<Rightarrow> int \<Rightarrow> outcome \<times> Data" where
  "SetInt v x =
    (case mustBeAssignable ''reflect.Value.SetInt'' v of
       Some p \<Rightarrow> (Panic p, data v)
     | None \<Rightarrow>
         if Kind v = Int_kind then (Success, DInt x)
         else (Panic ''reflect: call of reflect.Value.SetInt on non-int Value'', data v))"

section \<open>The configuration handler\<close>

text \<open>\<^verbatim>\<open>setValue\<close>: the switch on \<^verbatim>\<open>value.Kind()\<close>, with no default case.\<close>

definition setValue :: "Value \<Rightarrow> string \<Rightarrow> outcome \<times> Data" where
  "setValue value envvar =
    (case Kind value of
       String \<Rightarrow> SetString value envvar
     | Int_kind \<Rightarrow>
         (case Atoi envvar of
            Inl err \<Rightarrow> (Failure err, data value)
          | Inr n \<Rightarrow> SetInt value n)
     | _ \<Rightarrow> (Success, data value))"

text \<open>
  \<^verbatim>\<open>handleConfigTag\<close>. The process environment, which \<^verbatim>\<open>os.LookupEnv\<close> reads, is
  the first argument.
\<close>

definition handleConfigTag :: "(string \<Rightarrow> string option) \<Rightarrow> HandlerFn" where
  "handleConfigTag env value field =
    (case Lookup (Tag field) ''conf'' of
       None \<Rightarrow> (Success, data value)
     | Some tag \<Rightarrow>
         (case env tag of
            None \<Rightarrow> (Success, data value)
          | Some envvar \<Rightarrow> setValue value envvar))"

text \<open>The type \<^verbatim>\<open>Config\<close> of the program and its values.\<close>

definition HttpMaxRetries :: StructField where
  "HttpMaxRetries = \<lparr>Name = ''HttpMaxRetries'', PkgPath = [], Type = ''int'',
     Tag = [(''conf'', ''HTTP_MAX_RETRIES'')], Anonymous = False\<rparr>"

definition ElasticsearchHost :: StructField where
  "ElasticsearchHost = \<lparr>Name = ''ElasticsearchHost'', PkgPath = [], Type = ''string'',
     Tag = [(''conf'', ''ELASTICSEARCH_HOST'')], Anonymous = False\<rparr>"

definition Config :: "int \<Rightarrow> string \<Rightarrow> Data" where
  "Config retries host = DStruct [(HttpMaxRetries, DInt retries), (ElasticsearchHost, DString host)]"

text \<open>
  An input with nesting: a struct that holds a \<^verbatim>\<open>Config\<close> by value in its first field
  and a tagged string in its second.
\<close>

definition Inner :: StructField where
  "Inner = \<lparr>Name = ''Inner'', PkgPath = [], Type = ''main.Config'', Tag = [], Anonymous = False\<rparr>"

definition Service :: "Data" where
  "Service = DStruct [(Inner, Config 0 []), (ElasticsearchHost, DString [])]"

text \<open>Two environments: the one of the article's run, and one with a malformed number.\<close>

definition env_run :: "string \<Rightarrow> string option" where
  "env_run = [''ELASTICSEARCH_HOST'' \<mapsto> ''http://localhost:9200'', ''HTTP_MAX_RETRIES'' \<mapsto> ''5'']"

definition env_bad :: "string \<Rightarrow> string option" where
  "env_bad = [''ELASTICSEARCH_HOST'' \<mapsto> ''http://localhost:9200'', ''HTTP_MAX_RETRIES'' \<mapsto> ''abc'']"

section \<open>The validation handler\<close>

text \<open>
  \<^verbatim>\<open>fmt.Sprintf("%v", x)\<close>, for a value \<open>x\<close> of the type named \<open>typ\<close>. Package
  \<^verbatim>\<open>fmt\<close> first looks for a \<^verbatim>\<open>Format\<close>, \<^verbatim>\<open>Error\<close> or \<^verbatim>\<open>String\<close> method of the
  type (\<^verbatim>\<open>handleMethods\<close>) and prints what the method returns; without one it prints
  by kind (\<^verbatim>\<open>printValue\<close>): a value of kind \<^verbatim>\<open>Int\<close> in decimal, a string as it is. The
  methods of the types, and the text of a struct, a sequence, a map or a pointer (which
  depends on the types and the addresses in it), are given by the first argument.
\<close>

record Printer =
  handleMethods :: "string \<Rightarrow> Data \<Rightarrow> string option"
  printValue :: "string \<Rightarrow> Data \<Rightarrow> string"

function FormatUint :: "int \<Rightarrow> string" where
  "FormatUint n =
    (if n < 10 then [''0123456789'' ! nat n]
     else FormatUint (n div 10) @ [''0123456789'' ! nat (n mod 10)])"
  by pat_completeness auto
termination
  by (relation "measure nat") auto

definition FormatInt :: "int \<Rightarrow> string" where
  "FormatInt n = (if n < 0 then CHR ''-'' # FormatUint (- n) else FormatUint n)"

definition Sprintf_v :: "Printer \<Rightarrow> string \<Rightarrow> Data \<Rightarrow> string" where
  "Sprintf_v Sprint typ x =
    (case handleMethods Sprint typ x of
       Some s \<Rightarrow> s
     | None \<Rightarrow>
         (case x of DInt n \<Rightarrow> FormatInt n | DString s \<Rightarrow> s | DOther k s \<Rightarrow> s
          | _ \<Rightarrow> printValue Sprint typ x))"

text \<open>
  \<^verbatim>\<open>valueToString\<close>. \<^verbatim>\<open>value.Interface()\<close> panics on the zero Value and on a value
  obtained through an unexported field; \<open>Inl\<close> is the panic. \<open>typ\<close> is the type the
  \<^verbatim>\<open>reflect.Value\<close> carries, \<^verbatim>\<open>value.Type()\<close>.
\<close>

definition valueToString :: "Printer \<Rightarrow> string \<Rightarrow> Value \<Rightarrow> string + string" where
  "valueToString Sprint typ value =
    (if Kind value = Invalid then Inl ''reflect: call of reflect.Value.Interface on zero Value''
     else if flagRO value
       then Inl ''reflect.Value.Interface: cannot return value obtained from unexported field or method''
     else Inr (Sprintf_v Sprint typ (data value)))"

text \<open>
  \<^verbatim>\<open>handleValidateTag\<close>. \<open>Compile\<close> is \<^verbatim>\<open>regexp.Compile\<close>: the text of the syntax
  error, or the compiled expression, given by its \<^verbatim>\<open>MatchString\<close>. The value is the
  one of the field, \<^verbatim>\<open>val.Field(i)\<close>, so its type is \<^verbatim>\<open>field.Type\<close>.
\<close>

definition handleValidateTag ::
  "(string \<Rightarrow> string + (string \<Rightarrow> bool)) \<Rightarrow> Printer \<Rightarrow> HandlerFn" where
  "handleValidateTag Compile Sprint value field =
    (case Lookup (Tag field) ''validate'' of
       None \<Rightarrow> (Success, data value)
     | Some tag \<Rightarrow>
         (case Compile tag of
            Inl err \<Rightarrow>
              (Failure (errorString (''validation regexp syntax error: '' @ err)), data value)
          | Inr match \<Rightarrow>
              (case valueToString Sprint (Type field) value of
                 Inl p \<Rightarrow> (Panic p, data value)
               | Inr str \<Rightarrow>
                   if \<not> match str
                   then (Failure (errorString (''invalid field ('' @ Type field @ ''::''
                           @ Name field @ '') '' @ str @ '' != '' @ tag)), data value)
                   else (Success, data value))))"

section \<open>Regular expressions of the program\<close>

text \<open>
  What \<^verbatim>\<open>regexp\<close> does on the patterns the examples below use: the expressions
  the patterns denote, and when an expression matches a text. \<open>ends r s i\<close> lists the
  positions where a match of \<open>r\<close> that starts at position \<open>i\<close> of \<open>s\<close> can end;
  \<^verbatim>\<open>MatchString\<close> asks for a match starting anywhere.
\<close>

datatype item = Ch char | Rng char char | Digits | Words

datatype re = Chars "item list" | Bol | Eol
  | Cat "re list" | Alt "re list" | Repeat nat "nat option" re

definition between :: "char \<Rightarrow> char \<Rightarrow> char \<Rightarrow> bool" where
  "between lo hi c \<longleftrightarrow> (of_char lo :: int) \<le> of_char c \<and> (of_char c :: int) \<le> of_char hi"

fun in_item :: "char \<Rightarrow> item \<Rightarrow> bool" where
  "in_item c (Ch x) = (c = x)"
| "in_item c (Rng lo hi) = between lo hi c"
| "in_item c Digits = between CHR ''0'' CHR ''9'' c"
| "in_item c Words = (between CHR ''0'' CHR ''9'' c \<or> between CHR ''A'' CHR ''Z'' c
     \<or> between CHR ''a'' CHR ''z'' c \<or> c = CHR ''_'')"

fun ends :: "re \<Rightarrow> string \<Rightarrow> nat \<Rightarrow> nat list" where
  "ends (Chars items) s i =
     (if i < length s \<and> list_ex (in_item (s ! i)) items then [Suc i] else [])"
| "ends Bol s i = (if i = 0 then [i] else [])"
| "ends Eol s i = (if i = length s then [i] else [])"
| "ends (Cat rs) s i = fold (\<lambda>r is. remdups (concat (map (ends r s) is))) rs [i]"
| "ends (Alt rs) s i = remdups (concat (map (\<lambda>r. ends r s i) rs))"
| "ends (Repeat lo hi r) s i =
     (let step = (\<lambda>is. remdups (concat (map (ends r s) is)));
          from_lo = (step ^^ lo) [i];
          more = (case hi of None \<Rightarrow> length s | Some h \<Rightarrow> h - lo)
      in remdups (concat (map (\<lambda>k. (step ^^ k) from_lo) [0..<Suc more])))"

definition MatchString :: "re \<Rightarrow> string \<Rightarrow> bool" where
  "MatchString r s = list_ex (\<lambda>i. ends r s i \<noteq> []) [0..<Suc (length s)]"

text \<open>
  The two patterns of \<^verbatim>\<open>Person\<close>, \<^verbatim>\<open>^(19|20)\d\d$\<close> and
  \<^verbatim>\<open>^[\w-\.]+@([\w-]+\.)+[\w-]{2,4}$\<close>, the expressions they denote, and the pattern \<^verbatim>\<open>(\<close> with
  its syntax error. \<open>Compile_article\<close> is \<^verbatim>\<open>regexp.Compile\<close> on these three patterns;
  what it gives on another pattern is not meant.
\<close>

definition year_pattern :: string where
  "year_pattern = ''^(19|20)'' @ [CHR 0x5C] @ ''d'' @ [CHR 0x5C] @ ''d$''"

definition year_re :: re where
  "year_re = Cat [Bol,
     Alt [Cat [Chars [Ch CHR ''1''], Chars [Ch CHR ''9'']],
          Cat [Chars [Ch CHR ''2''], Chars [Ch CHR ''0'']]],
     Chars [Digits], Chars [Digits], Eol]"

definition email_pattern :: string where
  "email_pattern = ''^['' @ [CHR 0x5C] @ ''w-'' @ [CHR 0x5C] @ ''.]+@(['' @ [CHR 0x5C] @ ''w-]+''
     @ [CHR 0x5C] @ ''.)+['' @ [CHR 0x5C] @ ''w-]{2,4}$''"

definition email_re :: re where
  "email_re = Cat [Bol,
     Repeat 1 None (Chars [Words, Ch CHR ''-'', Ch CHR ''.'']),
     Chars [Ch CHR ''@''],
     Repeat 1 None (Cat [Repeat 1 None (Chars [Words, Ch CHR ''-'']), Chars [Ch CHR ''.'']]),
     Repeat 2 (Some 4) (Chars [Words, Ch CHR ''-'']), Eol]"

definition Compile_article :: "string \<Rightarrow> string + (string \<Rightarrow> bool)" where
  "Compile_article p =
    (if p = year_pattern then Inr (MatchString year_re)
     else if p = email_pattern then Inr (MatchString email_re)
     else if p = ''('' then Inl ''error parsing regexp: missing closing ): `(`''
     else Inl [])"

text \<open>
  Two printers: one for types without methods, which prints nothing for a struct, a
  sequence, a map or a pointer; and one that knows the \<^verbatim>\<open>String\<close> method of
  \<^verbatim>\<open>time.Month\<close> at the value 1.
\<close>

definition Sprint_none :: Printer where
  "Sprint_none = \<lparr>handleMethods = (\<lambda>typ x. None), printValue = (\<lambda>typ x. [])\<rparr>"

definition Sprint_month :: Printer where
  "Sprint_month =
     \<lparr>handleMethods = (\<lambda>typ x. if typ = ''time.Month'' \<and> x = DInt 1 then Some ''January'' else None),
      printValue = (\<lambda>typ x. [])\<rparr>"

text \<open>The types \<^verbatim>\<open>Person\<close> and \<^verbatim>\<open>Name\<close> of the program and the value its \<^verbatim>\<open>main\<close> walks.\<close>

definition BirthYear :: StructField where
  "BirthYear = \<lparr>Name = ''BirthYear'', PkgPath = [], Type = ''int'',
     Tag = [(''json'', ''birth_year''), (''validate'', year_pattern)], Anonymous = False\<rparr>"

definition Name_field :: StructField where
  "Name_field = \<lparr>Name = ''Name'', PkgPath = [], Type = ''main.Name'', Tag = [(''json'', ''name'')], Anonymous = False\<rparr>"

definition Email :: StructField where
  "Email = \<lparr>Name = ''Email'', PkgPath = [], Type = ''string'',
     Tag = [(''json'', ''email''), (''validate'', email_pattern)], Anonymous = False\<rparr>"

definition Friends :: StructField where
  "Friends = \<lparr>Name = ''Friends'', PkgPath = [], Type = ''[]*main.Person'',
     Tag = [(''json'', ''friends'')], Anonymous = False\<rparr>"

definition FirstName :: StructField where
  "FirstName = \<lparr>Name = ''FirstName'', PkgPath = [], Type = ''string'',
     Tag = [(''json'', ''first_name'')], Anonymous = False\<rparr>"

definition LastName :: StructField where
  "LastName = \<lparr>Name = ''LastName'', PkgPath = [], Type = ''string'',
     Tag = [(''json'', ''last_name'')], Anonymous = False\<rparr>"

definition Name_struct :: "string \<Rightarrow> string \<Rightarrow> Data" where
  "Name_struct fn ln = DStruct [(FirstName, DString fn), (LastName, DString ln)]"

definition Person :: "int \<Rightarrow> Data \<Rightarrow> string \<Rightarrow> Data list \<Rightarrow> Data" where
  "Person year nm email friends =
     DStruct [(BirthYear, DInt year), (Name_field, nm), (Email, DString email),
              (Friends, DSlice friends)]"

definition Iaf :: Data where
  "Iaf = Person 1992 (Name_struct ''Iaf'' ''Nofrens'') ''l33tboi95@hotmail.com'' []"

definition Lasse :: Data where
  "Lasse = Person 1990 (Name_struct ''Lasse Martin'' ''Jakobsen'') ''lasse@tengen.dk''
     [DPtr (Some Iaf)]"

text \<open>The value of the article in which the e-mail of the friend is invalid.\<close>

definition Iaf_invalid :: Data where
  "Iaf_invalid = Person 1992 (Name_struct ''Iaf'' ''Nofrens'') ''l33tboi95@hotmail'' []"

definition Lasse_invalid :: Data where
  "Lasse_invalid = Person 1990 (Name_struct ''Lasse Martin'' ''Jakobsen'') ''lasse@tengen.dk''
     [DPtr (Some Iaf_invalid)]"

section \<open>What the specification says of the walk\<close>

text \<open>
  The order of visits as the specification words it: a struct gives, for each declared
  field in declaration order, the field and then what its contents give; a sequence what
  its elements give, in index order; a map what its values give; a pointer what its
  pointee gives; anything else nothing.
\<close>

fun visit_order :: "Data \<Rightarrow> (Data \<times> StructField) list" where
  "visit_order (DStruct fs) = concat (map (\<lambda>(f, d). (d, f) # visit_order d) fs)"
| "visit_order (DArray xs) = concat (map visit_order xs)"
| "visit_order (DSlice xs) = concat (map visit_order xs)"
| "visit_order (DMap kvs) = concat (map (\<lambda>(k, d). visit_order d) kvs)"
| "visit_order (DPtr (Some d)) = visit_order d"
| "visit_order _ = []"

text \<open>
  Inputs with an unexported field, a broken pattern, a tagged field of another kind, and
  a slice held by value.
\<close>

definition birthYear :: StructField where
  "birthYear = \<lparr>Name = ''birthYear'', PkgPath = ''main'', Type = ''int'',
     Tag = [(''validate'', year_pattern)], Anonymous = False\<rparr>"

definition Broken :: StructField where
  "Broken = \<lparr>Name = ''Email'', PkgPath = [], Type = ''string'', Tag = [(''validate'', ''('')], Anonymous = False\<rparr>"

definition host :: StructField where
  "host = \<lparr>Name = ''host'', PkgPath = ''main'', Type = ''string'',
     Tag = [(''conf'', ''ELASTICSEARCH_HOST'')], Anonymous = False\<rparr>"

definition Configs :: StructField where
  "Configs = \<lparr>Name = ''Configs'', PkgPath = [], Type = ''[]main.Config'', Tag = [], Anonymous = False\<rparr>"

definition Timeout :: StructField where
  "Timeout = \<lparr>Name = ''Timeout'', PkgPath = [], Type = ''float64'',
     Tag = [(''conf'', ''HTTP_MAX_RETRIES'')], Anonymous = False\<rparr>"

definition Fleet :: "Data" where
  "Fleet = DStruct [(Configs, DSlice [Config 0 []])]"

text \<open>
  An array of two configurations held in a struct; a field of a type with a \<^verbatim>\<open>String\<close>
  method; and the node of a linked list, \<^verbatim>\<open>type Link struct { Next *Link }\<close>, with a
  callback that appends a node where the list ends:
  \<^verbatim>\<open>if value.Kind() == reflect.Ptr && value.IsNil() && value.CanSet() { value.Set(reflect.New(value.Type().Elem())) }; return nil\<close>.
\<close>

definition Nodes :: StructField where
  "Nodes = \<lparr>Name = ''Nodes'', PkgPath = [], Type = ''[2]main.Config'', Tag = [], Anonymous = False\<rparr>"

definition Cluster :: "Data" where
  "Cluster = DStruct [(Nodes, DArray [Config 0 [], Config 1 []])]"

definition Month :: StructField where
  "Month = \<lparr>Name = ''Month'', PkgPath = [], Type = ''time.Month'',
     Tag = [(''validate'', year_pattern)], Anonymous = False\<rparr>"




section \<open>Notions used in the statements\<close>

text \<open>
  A walk is fail-fast for a callback when every invocation it made succeeded, except that
  the last one returned what the walk returns, when that is not \<^verbatim>\<open>nil\<close>.
\<close>

definition succeeded :: "HandlerFn \<Rightarrow> Value \<times> StructField \<Rightarrow> bool" where
  "succeeded th c \<longleftrightarrow> fst (th (fst c) (snd c)) = Success"

definition fail_fast :: "HandlerFn \<Rightarrow> 'a walked \<Rightarrow> bool" where
  "fail_fast th w \<longleftrightarrow>
     (if result w = Success then list_all (succeeded th) (calls w)
      else \<exists>cs c. calls w = cs @ [c] \<and> list_all (succeeded th) cs
             \<and> fst (th (fst c) (snd c)) = result w)"

text \<open>
  The invocations of a walk, seen through \<open>g\<close>, are in the order \<open>xs\<close>: a prefix of it,
  and all of it when the walk ends with \<^verbatim>\<open>nil\<close>.
\<close>

definition in_order :: "(Value \<times> StructField \<Rightarrow> 'b) \<Rightarrow> 'a walked \<Rightarrow> 'b list \<Rightarrow> bool" where
  "in_order g w xs \<longleftrightarrow>
     prefix (map g (calls w)) xs \<and> (result w = Success \<longrightarrow> map g (calls w) = xs)"

definition seen :: "Value \<times> StructField \<Rightarrow> Data \<times> StructField" where
  "seen c = (data (fst c), snd c)"

definition leaves_alone :: "HandlerFn \<Rightarrow> bool" where
  "leaves_alone th \<longleftrightarrow> (\<forall>v f. snd (th v f) = data v)"

definition untouched :: "(Value \<Rightarrow> Data walked option) \<Rightarrow> bool" where
  "untouched hv \<longleftrightarrow>
     (\<forall>v w. hv v = Some w \<longrightarrow> after w = data v \<and> in_order seen w (visit_order (data v)))"

text \<open>
  The value of a field of a struct as the callback gets it, and as the walker enters it
  when the callback has returned; the values the walker enters in a value that is not a
  struct, in the order in which it enters them; whether a nested walk has ended with
  \<^verbatim>\<open>nil\<close>, and the invocations it has made.
\<close>

definition passed :: "Value \<Rightarrow> StructField \<times> Data \<Rightarrow> Value" where
  "passed val p = Value_Field val (fst p) (snd p)"

definition entered :: "HandlerFn \<Rightarrow> Value \<Rightarrow> StructField \<times> Data \<Rightarrow> Value" where
  "entered th val p = (passed val p)\<lparr>data := snd (th (passed val p) (fst p))\<rparr>"

definition elems :: "Value \<Rightarrow> Value list" where
  "elems val =
     (case data val of
        DArray xs \<Rightarrow> map (Index val) xs
      | DSlice xs \<Rightarrow> map (Index val) xs
      | DMap kvs \<Rightarrow> map (\<lambda>p. MapIndex val (snd p)) kvs
      | DPtr p \<Rightarrow> [Elem val]
      | _ \<Rightarrow> [])"

definition ends_nil :: "'a walked option \<Rightarrow> bool" where
  "ends_nil r = (case r of Some s \<Rightarrow> result s = Success | None \<Rightarrow> False)"

definition calls_of :: "'a walked option \<Rightarrow> (Value \<times> StructField) list" where
  "calls_of r = (case r of Some s \<Rightarrow> calls s | None \<Rightarrow> [])"

text \<open>How deep the walk has to go into a value.\<close>

fun depth :: "Data \<Rightarrow> nat" where
  "depth (DStruct fs) = Suc (foldr max (map (\<lambda>(f, d). depth d) fs) 0)"
| "depth (DArray xs) = Suc (foldr max (map depth xs) 0)"
| "depth (DSlice xs) = Suc (foldr max (map depth xs) 0)"
| "depth (DMap kvs) = Suc (foldr max (map (\<lambda>(k, d). depth d) kvs) 0)"
| "depth (DPtr (Some d)) = Suc (depth d)"
| "depth (DPtr None) = Suc 0"
| "depth _ = 0"

text \<open>A value that holds everything by value: no pointer and no slice in it.\<close>

fun by_value :: "Data \<Rightarrow> bool" where
  "by_value (DStruct fs) = list_all (\<lambda>(f, d). by_value d) fs"
| "by_value (DArray xs) = list_all by_value xs"
| "by_value (DMap kvs) = list_all (\<lambda>(k, d). by_value d) kvs"
| "by_value (DSlice xs) = False"
| "by_value (DPtr p) = False"
| "by_value _ = True"

text \<open>\<^verbatim>\<open>v.CanSet()\<close> of \<^verbatim>\<open>reflect\<close>.\<close>

definition CanSet :: "Value \<Rightarrow> bool" where
  "CanSet v \<longleftrightarrow> flagAddr v \<and> \<not> flagRO v"

text \<open>
  \<^verbatim>\<open>strings.Contains\<close>, and whether one of the strings an error holds contains a
  given one.
\<close>

fun Contains :: "string \<Rightarrow> string \<Rightarrow> bool" where
  "Contains [] sub = (sub = [])"
| "Contains (c # cs) sub = (prefix sub (c # cs) \<or> Contains cs sub)"

fun mentions :: "error \<Rightarrow> string \<Rightarrow> bool" where
  "mentions (errorString m) s = Contains m s"
| "mentions (NumError fn num err) s = (Contains fn s \<or> Contains num s \<or> Contains err s)"

text \<open>No invocation of the walk was on an addressable value.\<close>

definition unaddressable :: "'a walked \<Rightarrow> bool" where
  "unaddressable w \<longleftrightarrow> list_all (\<lambda>c. \<not> flagAddr (fst c)) (calls w)"

text \<open>The number a string of decimal digits denotes.\<close>

definition decimal :: "string \<Rightarrow> int" where
  "decimal s = foldl (\<lambda>a c. 10 * a + (of_char c - 48)) 0 s"

section \<open>The walk is fail-fast\<close>

lemma fail_fast_append:
  "list_all (succeeded th) cs \<Longrightarrow> fail_fast th w \<Longrightarrow> result w' = result w
    \<Longrightarrow> calls w' = cs @ calls w \<Longrightarrow> fail_fast th w'"
  unfolding fail_fast_def
  by (cases "result w = Success") (auto simp: list_all_iff)

lemma fail_fast_same:
  "fail_fast th w \<Longrightarrow> result w' = result w \<Longrightarrow> calls w' = calls w \<Longrightarrow> fail_fast th w'"
  unfolding fail_fast_def by presburger

lemma fail_fast_Success:
  "fail_fast th w \<Longrightarrow> result w = Success \<Longrightarrow> list_all (succeeded th) (calls w)"
  by (simp add: fail_fast_def)

lemma handleStruct_loop_fail_fast:
  assumes hv: "\<forall>v w. hv v = Some w \<longrightarrow> fail_fast th w"
  shows "handleStruct_loop hv th val fs = Some ws \<Longrightarrow> fail_fast th ws"
proof (induction fs arbitrary: ws)
  case Nil
  then show ?case by (auto simp: fail_fast_def)
next
  case (Cons p fs)
  obtain f d where p: "p = (f, d)" by (cases p)
  let ?fv = "Value_Field val f d"
  show ?case
  proof (cases "fst (th ?fv f) = Success")
    case False
    with Cons.prems show ?thesis
      by (auto simp: p Let_def fail_fast_def)
  next
    case ok: True
    then obtain w where w: "hv (?fv\<lparr>data := snd (th ?fv f)\<rparr>) = Some w"
      using Cons.prems by (auto simp: p Let_def split: option.splits)
    have fw: "fail_fast th w" using hv w by blast
    show ?thesis
    proof (cases "result w = Success")
      case False
      with Cons.prems ok w have "result ws = result w" "calls ws = [(?fv, f)] @ calls w"
        by (auto simp: p Let_def)
      moreover have "list_all (succeeded th) [(?fv, f)]" using ok by (simp add: succeeded_def)
      ultimately show ?thesis using fw fail_fast_append by blast
    next
      case True
      then obtain ws' where ws': "handleStruct_loop hv th val fs = Some ws'"
        and r: "result ws = result ws'" and c: "calls ws = ((?fv, f) # calls w) @ calls ws'"
        using Cons.prems ok w by (auto simp: p Let_def split: option.splits)
      have "list_all (succeeded th) ((?fv, f) # calls w)"
        using ok fw True by (simp add: succeeded_def fail_fast_def)
      then show ?thesis using Cons.IH[OF ws'] r c fail_fast_append by blast
    qed
  qed
qed

lemma handleArray_loop_fail_fast:
  assumes hv: "\<forall>v w. hv v = Some w \<longrightarrow> fail_fast th w"
  shows "handleArray_loop hv val xs = Some ws \<Longrightarrow> fail_fast th ws"
proof (induction xs arbitrary: ws)
  case Nil
  then show ?case by (auto simp: fail_fast_def)
next
  case (Cons d xs)
  then obtain w where w: "hv (Index val d) = Some w"
    by (auto split: option.splits)
  have fw: "fail_fast th w" using hv w by blast
  show ?case
  proof (cases "result w = Success")
    case False
    with Cons.prems w have "result ws = result w" "calls ws = calls w" by auto
    then show ?thesis using fw fail_fast_same by blast
  next
    case True
    then obtain ws' where ws': "handleArray_loop hv val xs = Some ws'"
      and r: "result ws = result ws'" and c: "calls ws = calls w @ calls ws'"
      using Cons.prems w by (auto split: option.splits)
    show ?thesis
      using Cons.IH[OF ws'] r c fail_fast_append fail_fast_Success[OF fw True] by blast
  qed
qed

lemma handleMap_loop_fail_fast:
  assumes hv: "\<forall>v w. hv v = Some w \<longrightarrow> fail_fast th w"
  shows "handleMap_loop hv val kvs = Some ws \<Longrightarrow> fail_fast th ws"
proof (induction kvs arbitrary: ws)
  case Nil
  then show ?case by (auto simp: fail_fast_def)
next
  case (Cons p kvs)
  obtain k d where p: "p = (k, d)" by (cases p)
  from Cons.prems obtain w where w: "hv (MapIndex val d) = Some w"
    by (auto simp: p split: option.splits)
  have fw: "fail_fast th w" using hv w by blast
  show ?case
  proof (cases "result w = Success")
    case False
    with Cons.prems w have "result ws = result w" "calls ws = calls w" by (auto simp: p)
    then show ?thesis using fw fail_fast_same by blast
  next
    case True
    then obtain ws' where ws': "handleMap_loop hv val kvs = Some ws'"
      and r: "result ws = result ws'" and c: "calls ws = calls w @ calls ws'"
      using Cons.prems w by (auto simp: p split: option.splits)
    show ?thesis
      using Cons.IH[OF ws'] r c fail_fast_append fail_fast_Success[OF fw True] by blast
  qed
qed

lemma handleValue_fail_fast:
  "handleValue n th val = Some w \<Longrightarrow> fail_fast th w"
proof (induction n arbitrary: val w)
  case 0
  then show ?case by simp
next
  case (Suc n)
  have hv: "\<forall>v w. handleValue n th v = Some w \<longrightarrow> fail_fast th w"
    using Suc.IH by blast
  show ?case
  proof (cases "data val")
    case (DStruct fs)
    with Suc.prems obtain ws where "handleStruct_loop (handleValue n th) th val fs = Some ws"
      "result w = result ws" "calls w = calls ws"
      by (auto simp: Kind_def handleStruct_def)
    then show ?thesis using handleStruct_loop_fail_fast[OF hv] fail_fast_same by blast
  next
    case (DArray xs)
    with Suc.prems obtain ws where "handleArray_loop (handleValue n th) val xs = Some ws"
      "result w = result ws" "calls w = calls ws"
      by (auto simp: Kind_def handleArray_def)
    then show ?thesis using handleArray_loop_fail_fast[OF hv] fail_fast_same by blast
  next
    case (DSlice xs)
    with Suc.prems obtain ws where "handleArray_loop (handleValue n th) val xs = Some ws"
      "result w = result ws" "calls w = calls ws"
      by (auto simp: Kind_def handleArray_def)
    then show ?thesis using handleArray_loop_fail_fast[OF hv] fail_fast_same by blast
  next
    case (DMap kvs)
    with Suc.prems obtain ws where "handleMap_loop (handleValue n th) val kvs = Some ws"
      "result w = result ws" "calls w = calls ws"
      by (auto simp: Kind_def handleMap_def)
    then show ?thesis using handleMap_loop_fail_fast[OF hv] fail_fast_same by blast
  next
    case (DPtr p)
    with Suc.prems obtain w' where "handleValue n th (Elem val) = Some w'"
      "result w = result w'" "calls w = calls w'"
      by (auto simp: Kind_def)
    then show ?thesis using hv fail_fast_same by blast
  qed (use Suc.prems in \<open>auto simp: Kind_def fail_fast_def\<close>)
qed

lemma Service_env_bad:
  "handleValue 4 (handleConfigTag env_bad) (ValueOf (DPtr (Some Service))) = Some
    \<lparr>result = Failure (NumError ''Atoi'' ''abc'' ''invalid syntax''),
     calls = [(\<lparr>data = Config 0 [], flagAddr = True, flagStickyRO = False, flagEmbedRO = False\<rparr>, Inner),
              (\<lparr>data = DInt 0, flagAddr = True, flagStickyRO = False, flagEmbedRO = False\<rparr>, HttpMaxRetries)],
     after = DPtr (Some Service)\<rparr>"
  by code_simp

text \<open>
  C3. The walk of a value that is neither struct, sequence, map nor pointer, of a nil
  pointer and of an empty array or slice ends with \<^verbatim>\<open>nil\<close> and without an invocation
  of the callback; and a walk that ends otherwise (with an error or in a panic) made an
  invocation of the callback, the last one, which returned that very outcome.
\<close>

theorem walker_defines_no_failure:
  "(Kind val \<notin> {Struct, Array, Slice, Map, Ptr} \<longrightarrow>
      handleValue (Suc n) th val = Some \<lparr>result = Success, calls = [], after = data val\<rparr>)
   \<and> (data val = DPtr None \<longrightarrow>
      handleValue (Suc (Suc n)) th val = Some \<lparr>result = Success, calls = [], after = DPtr None\<rparr>)
   \<and> (data val = DArray [] \<or> data val = DSlice [] \<longrightarrow>
      handleValue (Suc n) th val = Some \<lparr>result = Success, calls = [], after = data val\<rparr>)
   \<and> (handleValue m th val = Some w \<and> result w \<noteq> Success \<longrightarrow>
      calls w \<noteq> [] \<and> fst (th (fst (last (calls w))) (snd (last (calls w)))) = result w)"
proof -
  have 1: "handleValue (Suc n) th val = Some \<lparr>result = Success, calls = [], after = data val\<rparr>"
    if "Kind val \<notin> {Struct, Array, Slice, Map, Ptr}"
    using that by (cases "Kind val") simp_all
  have 2: "handleValue (Suc (Suc n)) th val
      = Some \<lparr>result = Success, calls = [], after = DPtr None\<rparr>"
    if "data val = DPtr None"
    using that by (simp add: Kind_def Elem_def)
  have 3: "handleValue (Suc n) th val = Some \<lparr>result = Success, calls = [], after = data val\<rparr>"
    if "data val = DArray [] \<or> data val = DSlice []"
    using that by (auto simp: Kind_def handleArray_def)
  have 4: "calls w \<noteq> [] \<and> fst (th (fst (last (calls w))) (snd (last (calls w)))) = result w"
    if a: "handleValue m th val = Some w \<and> result w \<noteq> Success"
  proof -
    from a have "fail_fast th w" using handleValue_fail_fast by blast
    with a show ?thesis by (auto simp: fail_fast_def)
  qed
  from 1 2 3 4 show ?thesis by blast
qed

text \<open>
  A scalar, a nil pointer, an empty slice; and the failing walk of \<^verbatim>\<open>Service\<close>,
  whose error is the one the callback returned on \<^verbatim>\<open>HttpMaxRetries\<close>.
\<close>

theorem walker_defines_no_failure_witness:
  "handleValue 1 (handleConfigTag env_bad) (ValueOf (DInt 7))
      = Some \<lparr>result = Success, calls = [], after = DInt 7\<rparr>
   \<and> handleValue 2 (handleConfigTag env_bad) (ValueOf (DPtr None))
      = Some \<lparr>result = Success, calls = [], after = DPtr None\<rparr>
   \<and> handleValue 1 (handleConfigTag env_bad) (ValueOf (DSlice []))
      = Some \<lparr>result = Success, calls = [], after = DSlice []\<rparr>
   \<and> fst (handleConfigTag env_bad \<lparr>data = DInt 0, flagAddr = True, flagStickyRO = False, flagEmbedRO = False\<rparr> HttpMaxRetries)
      = Failure (NumError ''Atoi'' ''abc'' ''invalid syntax'')"
proof -
  let ?h = "handleConfigTag env_bad"
  let ?w = "\<lparr>result = Failure (NumError ''Atoi'' ''abc'' ''invalid syntax''),
     calls = [(\<lparr>data = Config 0 [], flagAddr = True, flagStickyRO = False, flagEmbedRO = False\<rparr>, Inner),
              (\<lparr>data = DInt 0, flagAddr = True, flagStickyRO = False, flagEmbedRO = False\<rparr>, HttpMaxRetries)],
     after = DPtr (Some Service)\<rparr>"
  have k: "Kind (ValueOf (DInt 7)) \<notin> {Struct, Array, Slice, Map, Ptr}"
    by (simp add: Kind_def ValueOf_def)
  have 1: "handleValue 1 ?h (ValueOf (DInt 7))
      = Some \<lparr>result = Success, calls = [], after = DInt 7\<rparr>"
    using walker_defines_no_failure[of "ValueOf (DInt 7)" 0 ?h] k by (simp add: ValueOf_def)
  have 2: "handleValue 2 ?h (ValueOf (DPtr None))
      = Some \<lparr>result = Success, calls = [], after = DPtr None\<rparr>"
    using walker_defines_no_failure[of "ValueOf (DPtr None)" 0 ?h]
    by (simp add: ValueOf_def numeral_2_eq_2)
  have 3: "handleValue 1 ?h (ValueOf (DSlice []))
      = Some \<lparr>result = Success, calls = [], after = DSlice []\<rparr>"
    using walker_defines_no_failure[of "ValueOf (DSlice [])" 0 ?h] by (simp add: ValueOf_def)
  have r: "result ?w \<noteq> Success" by simp
  have 4: "fst (?h (fst (last (calls ?w))) (snd (last (calls ?w)))) = result ?w"
    using walker_defines_no_failure[of "ValueOf (DPtr (Some Service))" 0 ?h 4 ?w]
      Service_env_bad r by blast
  from 1 2 3 4 show ?thesis by simp
qed

section \<open>The walk visits the fields in pre-order\<close>

lemma in_order_stop:
  "in_order g w xs \<Longrightarrow> result w \<noteq> Success \<Longrightarrow> result w' = result w \<Longrightarrow> calls w' = cs @ calls w
    \<Longrightarrow> in_order g w' (map g cs @ xs @ ys)"
  by (auto simp: in_order_def)

lemma in_order_go:
  "in_order g w xs \<Longrightarrow> result w = Success \<Longrightarrow> in_order g ws ys \<Longrightarrow> result w' = result ws
    \<Longrightarrow> calls w' = cs @ calls w @ calls ws \<Longrightarrow> in_order g w' (map g cs @ xs @ ys)"
  by (auto simp: in_order_def)

lemma in_order_same:
  "in_order g w xs \<Longrightarrow> result w' = result w \<Longrightarrow> calls w' = calls w \<Longrightarrow> in_order g w' xs"
  by (auto simp: in_order_def)

lemma in_order_nil: "result w = Success \<Longrightarrow> calls w = [] \<Longrightarrow> in_order g w []"
  by (auto simp: in_order_def)

lemma handleStruct_loop_fields:
  assumes hv: "\<forall>v w. hv v = Some w \<longrightarrow> in_order snd w (map snd (visit_order (after w)))"
  shows "handleStruct_loop hv th val fs = Some ws
    \<Longrightarrow> in_order snd ws (map snd (visit_order (DStruct (after ws))))"
proof (induction fs arbitrary: ws)
  case Nil
  then show ?case by (auto simp: in_order_def)
next
  case (Cons p fs)
  obtain f d where p: "p = (f, d)" by (cases p)
  let ?fv = "Value_Field val f d"
  show ?case
  proof (cases "fst (th ?fv f) = Success")
    case False
    with Cons.prems show ?thesis
      by (auto simp: p Let_def in_order_def)
  next
    case ok: True
    then obtain w where w: "hv (?fv\<lparr>data := snd (th ?fv f)\<rparr>) = Some w"
      using Cons.prems by (auto simp: p Let_def split: option.splits)
    have fw: "in_order snd w (map snd (visit_order (after w)))" using hv w by blast
    show ?thesis
    proof (cases "result w = Success")
      case False
      with Cons.prems ok w have *: "result ws = result w" "calls ws = [(?fv, f)] @ calls w"
        "after ws = (f, after w) # fs"
        by (auto simp: p Let_def)
      show ?thesis
        using in_order_stop[OF fw False *(1,2), of "map snd (visit_order (DStruct fs))"] *(3)
        by simp
    next
      case True
      then obtain ws' where ws': "handleStruct_loop hv th val fs = Some ws'"
        and r: "result ws = result ws'" and c: "calls ws = [(?fv, f)] @ calls w @ calls ws'"
        and a: "after ws = (f, after w) # after ws'"
        using Cons.prems ok w by (auto simp: p Let_def split: option.splits)
      show ?thesis
        using in_order_go[OF fw True Cons.IH[OF ws'] r c] a by simp
    qed
  qed
qed

lemma handleArray_loop_fields:
  assumes hv: "\<forall>v w. hv v = Some w \<longrightarrow> in_order snd w (map snd (visit_order (after w)))"
  shows "handleArray_loop hv val xs = Some ws
    \<Longrightarrow> in_order snd ws (map snd (visit_order (DArray (after ws))))"
proof (induction xs arbitrary: ws)
  case Nil
  then show ?case by (auto simp: in_order_def)
next
  case (Cons d xs)
  then obtain w where w: "hv (Index val d) = Some w"
    by (auto split: option.splits)
  have fw: "in_order snd w (map snd (visit_order (after w)))" using hv w by blast
  show ?case
  proof (cases "result w = Success")
    case False
    with Cons.prems w have *: "result ws = result w" "calls ws = [] @ calls w"
      "after ws = after w # xs" by auto
    show ?thesis
      using in_order_stop[OF fw False *(1,2), of "map snd (visit_order (DArray xs))"] *(3) by simp
  next
    case True
    then obtain ws' where ws': "handleArray_loop hv val xs = Some ws'"
      and r: "result ws = result ws'" and c: "calls ws = [] @ calls w @ calls ws'"
      and a: "after ws = after w # after ws'"
      using Cons.prems w by (auto split: option.splits)
    show ?thesis
      using in_order_go[OF fw True Cons.IH[OF ws'] r c] a by simp
  qed
qed

lemma handleMap_loop_fields:
  assumes hv: "\<forall>v w. hv v = Some w \<longrightarrow> in_order snd w (map snd (visit_order (after w)))"
  shows "handleMap_loop hv val kvs = Some ws
    \<Longrightarrow> in_order snd ws (map snd (visit_order (DMap (after ws))))"
proof (induction kvs arbitrary: ws)
  case Nil
  then show ?case by (auto simp: in_order_def)
next
  case (Cons p kvs)
  obtain k d where p: "p = (k, d)" by (cases p)
  from Cons.prems obtain w where w: "hv (MapIndex val d) = Some w"
    by (auto simp: p split: option.splits)
  have fw: "in_order snd w (map snd (visit_order (after w)))" using hv w by blast
  show ?case
  proof (cases "result w = Success")
    case False
    with Cons.prems w have *: "result ws = result w" "calls ws = [] @ calls w"
      "after ws = (k, after w) # kvs" by (auto simp: p)
    show ?thesis
      using in_order_stop[OF fw False *(1,2), of "map snd (visit_order (DMap kvs))"] *(3) by simp
  next
    case True
    then obtain ws' where ws': "handleMap_loop hv val kvs = Some ws'"
      and r: "result ws = result ws'" and c: "calls ws = [] @ calls w @ calls ws'"
      and a: "after ws = (k, after w) # after ws'"
      using Cons.prems w by (auto simp: p split: option.splits)
    show ?thesis
      using in_order_go[OF fw True Cons.IH[OF ws'] r c] a by simp
  qed
qed

lemma handleValue_fields:
  "handleValue n th val = Some w \<Longrightarrow> in_order snd w (map snd (visit_order (after w)))"
proof (induction n arbitrary: val w)
  case 0
  then show ?case by simp
next
  case (Suc n)
  have hv: "\<forall>v w. handleValue n th v = Some w \<longrightarrow> in_order snd w (map snd (visit_order (after w)))"
    using Suc.IH by blast
  show ?case
  proof (cases "data val")
    case (DStruct fs)
    with Suc.prems obtain ws where "handleStruct_loop (handleValue n th) th val fs = Some ws"
      "result w = result ws" "calls w = calls ws" "after w = DStruct (after ws)"
      by (auto simp: Kind_def handleStruct_def)
    then show ?thesis using handleStruct_loop_fields[OF hv] in_order_same by metis
  next
    case (DArray xs)
    with Suc.prems obtain ws where "handleArray_loop (handleValue n th) val xs = Some ws"
      "result w = result ws" "calls w = calls ws" "after w = DArray (after ws)"
      by (auto simp: Kind_def handleArray_def)
    then show ?thesis using handleArray_loop_fields[OF hv] in_order_same by metis
  next
    case (DSlice xs)
    with Suc.prems obtain ws where "handleArray_loop (handleValue n th) val xs = Some ws"
      "result w = result ws" "calls w = calls ws" "after w = DSlice (after ws)"
      by (auto simp: Kind_def handleArray_def)
    then show ?thesis using handleArray_loop_fields[OF hv] in_order_same[of snd ws "map snd (visit_order (DArray (after ws)))" w] by simp
  next
    case (DMap kvs)
    with Suc.prems obtain ws where "handleMap_loop (handleValue n th) val kvs = Some ws"
      "result w = result ws" "calls w = calls ws" "after w = DMap (after ws)"
      by (auto simp: Kind_def handleMap_def)
    then show ?thesis using handleMap_loop_fields[OF hv] in_order_same by metis
  next
    case (DPtr p)
    with Suc.prems obtain w' where w': "handleValue n th (Elem val) = Some w'"
      "result w = result w'" "calls w = calls w'"
      "after w = (case p of Some d \<Rightarrow> DPtr (Some (after w')) | None \<Rightarrow> DPtr None)"
      by (auto simp: Kind_def split: option.splits)
    have i: "in_order snd w' (map snd (visit_order (after w')))" using hv w'(1) by blast
    show ?thesis
    proof (cases p)
      case None
      with DPtr w'(1) have "calls w' = [] \<and> result w' = Success"
        by (cases n) (auto simp: Elem_def Kind_def)
      with w' None show ?thesis by (simp add: in_order_def)
    next
      case (Some d)
      with w' i show ?thesis by (simp add: in_order_def)
    qed
  qed (use Suc.prems in \<open>auto simp: Kind_def in_order_def\<close>)
qed


lemma handleStruct_loop_untouched:
  assumes hv: "untouched hv" and th: "leaves_alone th"
  shows "handleStruct_loop hv th val fs = Some ws
    \<Longrightarrow> after ws = fs \<and> in_order seen ws (visit_order (DStruct fs))"
proof (induction fs arbitrary: ws)
  case Nil
  then show ?case by (auto simp: in_order_def)
next
  case (Cons p fs)
  obtain f d where p: "p = (f, d)" by (cases p)
  let ?fv = "Value_Field val f d"
  have same: "snd (th ?fv f) = d" "?fv\<lparr>data := d\<rparr> = ?fv" "seen (?fv, f) = (d, f)"
    using th by (simp_all add: leaves_alone_def Value_Field_def seen_def)
  show ?case
  proof (cases "fst (th ?fv f) = Success")
    case False
    with Cons.prems same show ?thesis
      by (auto simp: p Let_def in_order_def)
  next
    case ok: True
    then obtain w where w: "hv ?fv = Some w"
      using Cons.prems same by (auto simp: p Let_def split: option.splits)
    have fw: "in_order seen w (visit_order d)" and aw: "after w = d"
      using hv[unfolded untouched_def, rule_format, OF w] by (simp_all add: Value_Field_def)
    show ?thesis
    proof (cases "result w = Success")
      case False
      with Cons.prems ok w same have *: "result ws = result w" "calls ws = [(?fv, f)] @ calls w"
        "after ws = (f, after w) # fs"
        by (auto simp: p Let_def)
      show ?thesis
        using in_order_stop[OF fw False *(1,2), of "visit_order (DStruct fs)"] *(3) aw same(3)
        by (simp add: p)
    next
      case True
      then obtain ws' where ws': "handleStruct_loop hv th val fs = Some ws'"
        and r: "result ws = result ws'" and c: "calls ws = [(?fv, f)] @ calls w @ calls ws'"
        and a: "after ws = (f, after w) # after ws'"
        using Cons.prems ok w same by (auto simp: p Let_def split: option.splits)
      from Cons.IH[OF ws'] have ih: "after ws' = fs" "in_order seen ws' (visit_order (DStruct fs))"
        by simp_all
      show ?thesis
        using in_order_go[OF fw True ih(2) r c] a aw ih(1) same(3) by (simp add: p)
    qed
  qed
qed

lemma handleArray_loop_untouched:
  assumes hv: "untouched hv"
  shows "handleArray_loop hv val xs = Some ws
    \<Longrightarrow> after ws = xs \<and> in_order seen ws (visit_order (DArray xs))"
proof (induction xs arbitrary: ws)
  case Nil
  then show ?case by (auto simp: in_order_def)
next
  case (Cons d xs)
  then obtain w where w: "hv (Index val d) = Some w"
    by (auto split: option.splits)
  have fw: "in_order seen w (visit_order d)" and aw: "after w = d"
    using hv[unfolded untouched_def, rule_format, OF w] by (simp_all add: Index_def)
  show ?case
  proof (cases "result w = Success")
    case False
    with Cons.prems w have *: "result ws = result w" "calls ws = [] @ calls w"
      "after ws = after w # xs" by auto
    show ?thesis
      using in_order_stop[OF fw False *(1,2), of "visit_order (DArray xs)"] *(3) aw by simp
  next
    case True
    then obtain ws' where ws': "handleArray_loop hv val xs = Some ws'"
      and r: "result ws = result ws'" and c: "calls ws = [] @ calls w @ calls ws'"
      and a: "after ws = after w # after ws'"
      using Cons.prems w by (auto split: option.splits)
    from Cons.IH[OF ws'] have ih: "after ws' = xs" "in_order seen ws' (visit_order (DArray xs))"
      by simp_all
    show ?thesis
      using in_order_go[OF fw True ih(2) r c] a aw ih(1) by simp
  qed
qed

lemma handleMap_loop_untouched:
  assumes hv: "untouched hv"
  shows "handleMap_loop hv val kvs = Some ws
    \<Longrightarrow> after ws = kvs \<and> in_order seen ws (visit_order (DMap kvs))"
proof (induction kvs arbitrary: ws)
  case Nil
  then show ?case by (auto simp: in_order_def)
next
  case (Cons p kvs)
  obtain k d where p: "p = (k, d)" by (cases p)
  from Cons.prems obtain w where w: "hv (MapIndex val d) = Some w"
    by (auto simp: p split: option.splits)
  have fw: "in_order seen w (visit_order d)" and aw: "after w = d"
    using hv[unfolded untouched_def, rule_format, OF w] by (simp_all add: MapIndex_def)
  show ?case
  proof (cases "result w = Success")
    case False
    with Cons.prems w have *: "result ws = result w" "calls ws = [] @ calls w"
      "after ws = (k, after w) # kvs" by (auto simp: p)
    show ?thesis
      using in_order_stop[OF fw False *(1,2), of "visit_order (DMap kvs)"] *(3) aw
      by (simp add: p)
  next
    case True
    then obtain ws' where ws': "handleMap_loop hv val kvs = Some ws'"
      and r: "result ws = result ws'" and c: "calls ws = [] @ calls w @ calls ws'"
      and a: "after ws = (k, after w) # after ws'"
      using Cons.prems w by (auto simp: p split: option.splits)
    from Cons.IH[OF ws'] have ih: "after ws' = kvs" "in_order seen ws' (visit_order (DMap kvs))"
      by simp_all
    show ?thesis
      using in_order_go[OF fw True ih(2) r c] a aw ih(1) by (simp add: p)
  qed
qed

lemma handleValue_untouched:
  assumes th: "leaves_alone th"
  shows "untouched (handleValue n th)"
proof (induction n)
  case 0
  then show ?case by (simp add: untouched_def)
next
  case (Suc n)
  show ?case unfolding untouched_def
  proof (intro allI impI)
    fix val w
    assume run: "handleValue (Suc n) th val = Some w"
    show "after w = data val \<and> in_order seen w (visit_order (data val))"
    proof (cases "data val")
      case (DStruct fs)
      with run obtain ws where "handleStruct_loop (handleValue n th) th val fs = Some ws"
        "result w = result ws" "calls w = calls ws" "after w = DStruct (after ws)"
        by (auto simp: Kind_def handleStruct_def)
      then show ?thesis
        using handleStruct_loop_untouched[OF Suc th] in_order_same DStruct by metis
    next
      case (DArray xs)
      with run obtain ws where "handleArray_loop (handleValue n th) val xs = Some ws"
        "result w = result ws" "calls w = calls ws" "after w = DArray (after ws)"
        by (auto simp: Kind_def handleArray_def)
      then show ?thesis
        using handleArray_loop_untouched[OF Suc] in_order_same DArray by metis
    next
      case (DSlice xs)
      with run obtain ws where ws: "handleArray_loop (handleValue n th) val xs = Some ws"
        "result w = result ws" "calls w = calls ws" "after w = DSlice (after ws)"
        by (auto simp: Kind_def handleArray_def)
      from handleArray_loop_untouched[OF Suc ws(1)]
      have "after ws = xs" "in_order seen ws (visit_order (DSlice xs))" by simp_all
      then show ?thesis using ws DSlice in_order_same by metis
    next
      case (DMap kvs)
      with run obtain ws where "handleMap_loop (handleValue n th) val kvs = Some ws"
        "result w = result ws" "calls w = calls ws" "after w = DMap (after ws)"
        by (auto simp: Kind_def handleMap_def)
      then show ?thesis
        using handleMap_loop_untouched[OF Suc] in_order_same DMap by metis
    next
      case (DPtr p)
      with run obtain w' where w': "handleValue n th (Elem val) = Some w'"
        "result w = result w'" "calls w = calls w'"
        "after w = (case p of Some d \<Rightarrow> DPtr (Some (after w')) | None \<Rightarrow> DPtr None)"
        by (auto simp: Kind_def split: option.splits)
      have i: "after w' = data (Elem val)" "in_order seen w' (visit_order (data (Elem val)))"
        using Suc w'(1) by (auto simp: untouched_def)
      show ?thesis
      proof (cases p)
        case None
        with DPtr w' i show ?thesis by (simp add: in_order_def Elem_def)
      next
        case (Some d)
        with DPtr w' i show ?thesis by (simp add: in_order_def Elem_def)
      qed
    qed (use run in \<open>auto simp: Kind_def in_order_def\<close>)
  qed
qed

lemma handleValidateTag_leaves_alone:
  "snd (handleValidateTag Compile Sprint v f) = data v"
  by (simp add: handleValidateTag_def split: option.splits sum.splits)


section \<open>The walk returns\<close>

lemma depth_le_foldr_max: "x \<in> set xs \<Longrightarrow> g x \<le> foldr max (map g xs) (0::nat)"
  by (induction xs) (auto simp: max_def)

lemma handleStruct_loop_returns:
  assumes hv: "\<forall>v. depth (data v) < n \<longrightarrow> hv v \<noteq> None"
    and th: "\<forall>v f. depth (snd (th v f)) \<le> depth (data v)"
  shows "\<forall>p \<in> set fs. depth (snd p) < n \<Longrightarrow> handleStruct_loop hv th val fs \<noteq> None"
proof (induction fs)
  case Nil
  then show ?case by simp
next
  case (Cons p fs)
  obtain f d where p: "p = (f, d)" by (cases p)
  let ?fv = "Value_Field val f d"
  have "depth (snd (th ?fv f)) \<le> depth (data ?fv)" using th by blast
  then have "depth (snd (th ?fv f)) \<le> depth d" by (simp add: Value_Field_def)
  moreover have "depth d < n" using Cons.prems by (simp add: p)
  ultimately have "hv (?fv\<lparr>data := snd (th ?fv f)\<rparr>) \<noteq> None" using hv by simp
  moreover have "handleStruct_loop hv th val fs \<noteq> None" using Cons by simp
  ultimately show ?case by (auto simp: p Let_def)
qed

lemma handleArray_loop_returns:
  assumes hv: "\<forall>v. depth (data v) < n \<longrightarrow> hv v \<noteq> None"
  shows "\<forall>d \<in> set xs. depth d < n \<Longrightarrow> handleArray_loop hv val xs \<noteq> None"
proof (induction xs)
  case Nil
  then show ?case by simp
next
  case (Cons d xs)
  have "hv (Index val d) \<noteq> None" using hv Cons.prems by (simp add: Index_def)
  moreover have "handleArray_loop hv val xs \<noteq> None" using Cons by simp
  ultimately show ?case by auto
qed

lemma handleMap_loop_returns:
  assumes hv: "\<forall>v. depth (data v) < n \<longrightarrow> hv v \<noteq> None"
  shows "\<forall>p \<in> set kvs. depth (snd p) < n \<Longrightarrow> handleMap_loop hv val kvs \<noteq> None"
proof (induction kvs)
  case Nil
  then show ?case by simp
next
  case (Cons p kvs)
  obtain k d where p: "p = (k, d)" by (cases p)
  have "hv (MapIndex val d) \<noteq> None" using hv Cons.prems by (simp add: MapIndex_def p)
  moreover have "handleMap_loop hv val kvs \<noteq> None" using Cons by simp
  ultimately show ?case by (auto simp: p)
qed

lemma handleValue_returns:
  assumes th: "\<forall>v f. depth (snd (th v f)) \<le> depth (data v)"
  shows "depth (data val) < n \<Longrightarrow> handleValue n th val \<noteq> None"
proof (induction n arbitrary: val)
  case 0
  then show ?case by simp
next
  case (Suc n)
  have hv: "\<forall>v. depth (data v) < n \<longrightarrow> handleValue n th v \<noteq> None"
    using Suc.IH by blast
  show ?case
  proof (cases "data val")
    case (DStruct fs)
    have "\<forall>p \<in> set fs. depth (snd p) < n"
    proof
      fix p assume "p \<in> set fs"
      then have "depth (snd p) \<le> foldr max (map (\<lambda>p. depth (snd p)) fs) 0"
        by (rule depth_le_foldr_max)
      with Suc.prems DStruct show "depth (snd p) < n" by (simp add: case_prod_unfold)
    qed
    then have "handleStruct_loop (handleValue n th) th val fs \<noteq> None"
      by (rule handleStruct_loop_returns[OF hv th])
    with DStruct show ?thesis by (auto simp: Kind_def handleStruct_def)
  next
    case (DArray xs)
    have "\<forall>d \<in> set xs. depth d < n"
    proof
      fix d assume "d \<in> set xs"
      then have "depth d \<le> foldr max (map depth xs) 0" by (rule depth_le_foldr_max)
      with Suc.prems DArray show "depth d < n" by simp
    qed
    then have "handleArray_loop (handleValue n th) val xs \<noteq> None"
      by (rule handleArray_loop_returns[OF hv])
    with DArray show ?thesis by (auto simp: Kind_def handleArray_def)
  next
    case (DSlice xs)
    have "\<forall>d \<in> set xs. depth d < n"
    proof
      fix d assume "d \<in> set xs"
      then have "depth d \<le> foldr max (map depth xs) 0" by (rule depth_le_foldr_max)
      with Suc.prems DSlice show "depth d < n" by simp
    qed
    then have "handleArray_loop (handleValue n th) val xs \<noteq> None"
      by (rule handleArray_loop_returns[OF hv])
    with DSlice show ?thesis by (auto simp: Kind_def handleArray_def)
  next
    case (DMap kvs)
    have "\<forall>p \<in> set kvs. depth (snd p) < n"
    proof
      fix p assume "p \<in> set kvs"
      then have "depth (snd p) \<le> foldr max (map (\<lambda>p. depth (snd p)) kvs) 0"
        by (rule depth_le_foldr_max)
      with Suc.prems DMap show "depth (snd p) < n" by (simp add: case_prod_unfold)
    qed
    then have "handleMap_loop (handleValue n th) val kvs \<noteq> None"
      by (rule handleMap_loop_returns[OF hv])
    with DMap show ?thesis by (auto simp: Kind_def handleMap_def)
  next
    case (DPtr p)
    have "depth (data (Elem val)) < n"
      using Suc.prems DPtr by (cases p) (auto simp: Elem_def)
    then have "handleValue n th (Elem val) \<noteq> None" using hv by blast
    with DPtr show ?thesis by (auto simp: Kind_def)
  qed (auto simp: Kind_def)
qed

lemma handleConfigTag_depth: "depth (snd (handleConfigTag env v f)) \<le> depth (data v)"
  by (cases "data v")
     (auto simp: handleConfigTag_def setValue_def SetString_def SetInt_def Kind_def
           split: option.splits sum.splits)

section \<open>One level of the walk\<close>

lemma handleStruct_loop_append:
  assumes "\<forall>q \<in> set pre. fst (th (passed val q) (fst q)) = Success
             \<and> ends_nil (hv (entered th val q))"
  shows "handleStruct_loop hv th val (pre @ rest) =
     map_option (\<lambda>ws. \<lparr>result = result ws,
        calls = concat (map (\<lambda>q. (passed val q, fst q) # calls_of (hv (entered th val q))) pre)
                  @ calls ws,
        after = map (\<lambda>q. (fst q, after (the (hv (entered th val q))))) pre @ after ws\<rparr>)
       (handleStruct_loop hv th val rest)"
  using assms
proof (induction pre)
  case Nil
  show ?case by (cases "handleStruct_loop hv th val rest") auto
next
  case (Cons q pre)
  obtain f d where q: "q = (f, d)" by (cases q)
  from Cons.prems obtain s where
    ok: "fst (th (Value_Field val f d) f) = Success"
    and s: "hv ((Value_Field val f d)\<lparr>data := snd (th (Value_Field val f d) f)\<rparr>) = Some s"
    and r: "result s = Success"
    by (auto simp: q passed_def entered_def ends_nil_def split: option.splits)
  have ih: "handleStruct_loop hv th val (pre @ rest) =
     map_option (\<lambda>ws. \<lparr>result = result ws,
        calls = concat (map (\<lambda>q. (passed val q, fst q) # calls_of (hv (entered th val q))) pre)
                  @ calls ws,
        after = map (\<lambda>q. (fst q, after (the (hv (entered th val q))))) pre @ after ws\<rparr>)
       (handleStruct_loop hv th val rest)"
    using Cons.IH Cons.prems by simp
  show ?case
    by (cases "handleStruct_loop hv th val rest")
       (simp_all add: q ih ok s r Let_def passed_def entered_def calls_of_def)
qed

lemma handleArray_loop_append:
  assumes "\<forall>d \<in> set pre. ends_nil (hv (Index val d))"
  shows "handleArray_loop hv val (pre @ rest) =
     map_option (\<lambda>ws. \<lparr>result = result ws,
        calls = concat (map (\<lambda>d. calls_of (hv (Index val d))) pre) @ calls ws,
        after = map (\<lambda>d. after (the (hv (Index val d)))) pre @ after ws\<rparr>)
       (handleArray_loop hv val rest)"
  using assms
proof (induction pre)
  case Nil
  show ?case by (cases "handleArray_loop hv val rest") auto
next
  case (Cons d pre)
  from Cons.prems obtain s where s: "hv (Index val d) = Some s" and r: "result s = Success"
    by (auto simp: ends_nil_def split: option.splits)
  have ih: "handleArray_loop hv val (pre @ rest) =
     map_option (\<lambda>ws. \<lparr>result = result ws,
        calls = concat (map (\<lambda>d. calls_of (hv (Index val d))) pre) @ calls ws,
        after = map (\<lambda>d. after (the (hv (Index val d)))) pre @ after ws\<rparr>)
       (handleArray_loop hv val rest)"
    using Cons.IH Cons.prems by simp
  show ?case
    by (cases "handleArray_loop hv val rest") (simp_all add: ih s r calls_of_def)
qed

lemma handleMap_loop_append:
  assumes "\<forall>q \<in> set pre. ends_nil (hv (MapIndex val (snd q)))"
  shows "handleMap_loop hv val (pre @ rest) =
     map_option (\<lambda>ws. \<lparr>result = result ws,
        calls = concat (map (\<lambda>q. calls_of (hv (MapIndex val (snd q)))) pre) @ calls ws,
        after = map (\<lambda>q. (fst q, after (the (hv (MapIndex val (snd q)))))) pre @ after ws\<rparr>)
       (handleMap_loop hv val rest)"
  using assms
proof (induction pre)
  case Nil
  show ?case by (cases "handleMap_loop hv val rest") auto
next
  case (Cons q pre)
  obtain k d where q: "q = (k, d)" by (cases q)
  from Cons.prems obtain s where s: "hv (MapIndex val d) = Some s" and r: "result s = Success"
    by (auto simp: q ends_nil_def split: option.splits)
  have ih: "handleMap_loop hv val (pre @ rest) =
     map_option (\<lambda>ws. \<lparr>result = result ws,
        calls = concat (map (\<lambda>q. calls_of (hv (MapIndex val (snd q)))) pre) @ calls ws,
        after = map (\<lambda>q. (fst q, after (the (hv (MapIndex val (snd q)))))) pre @ after ws\<rparr>)
       (handleMap_loop hv val rest)"
    using Cons.IH Cons.prems by simp
  show ?case
    by (cases "handleMap_loop hv val rest") (simp_all add: q ih s r calls_of_def)
qed

lemma walk_struct_all:
  assumes "data val = DStruct fs"
    and "\<forall>p \<in> set fs. fst (th (passed val p) (fst p)) = Success
           \<and> ends_nil (handleValue n th (entered th val p))"
  shows "handleValue (Suc n) th val = Some
     \<lparr>result = Success,
      calls = concat (map (\<lambda>p. (passed val p, fst p)
                                 # calls_of (handleValue n th (entered th val p))) fs),
      after = DStruct (map (\<lambda>p. (fst p, after (the (handleValue n th (entered th val p))))) fs)\<rparr>"
  using handleStruct_loop_append[OF assms(2), of "[]"] assms(1)
  by (simp add: Kind_def handleStruct_def)

lemma walk_struct_stop:
  assumes "data val = DStruct (pre @ p # post)"
    and "\<forall>q \<in> set pre. fst (th (passed val q) (fst q)) = Success
           \<and> ends_nil (handleValue n th (entered th val q))"
    and "fst (th (passed val p) (fst p)) \<noteq> Success"
  shows "handleValue (Suc n) th val = Some
     \<lparr>result = fst (th (passed val p) (fst p)),
      calls = concat (map (\<lambda>q. (passed val q, fst q)
                                 # calls_of (handleValue n th (entered th val q))) pre)
                @ [(passed val p, fst p)],
      after = DStruct (map (\<lambda>q. (fst q, after (the (handleValue n th (entered th val q))))) pre
                @ (fst p, snd (th (passed val p) (fst p))) # post)\<rparr>"
proof -
  obtain f d where p: "p = (f, d)" by (cases p)
  have "handleStruct_loop (handleValue n th) th val (p # post) = Some
      \<lparr>result = fst (th (passed val p) (fst p)), calls = [(passed val p, fst p)],
       after = (fst p, snd (th (passed val p) (fst p))) # post\<rparr>"
    using assms(3) by (simp add: p passed_def Let_def)
  with handleStruct_loop_append[OF assms(2), of "p # post"] assms(1)
  show ?thesis by (simp add: Kind_def handleStruct_def)
qed

lemma walk_struct_nested_stop:
  assumes "data val = DStruct (pre @ p # post)"
    and "\<forall>q \<in> set pre. fst (th (passed val q) (fst q)) = Success
           \<and> ends_nil (handleValue n th (entered th val q))"
    and "fst (th (passed val p) (fst p)) = Success"
    and "handleValue n th (entered th val p) = Some s" and "result s \<noteq> Success"
  shows "handleValue (Suc n) th val = Some
     \<lparr>result = result s,
      calls = concat (map (\<lambda>q. (passed val q, fst q)
                                 # calls_of (handleValue n th (entered th val q))) pre)
                @ (passed val p, fst p) # calls s,
      after = DStruct (map (\<lambda>q. (fst q, after (the (handleValue n th (entered th val q))))) pre
                @ (fst p, after s) # post)\<rparr>"
proof -
  obtain f d where p: "p = (f, d)" by (cases p)
  have "handleStruct_loop (handleValue n th) th val (p # post) = Some
      \<lparr>result = result s, calls = (passed val p, fst p) # calls s,
       after = (fst p, after s) # post\<rparr>"
    using assms(3,4,5) by (simp add: p passed_def entered_def Let_def)
  with handleStruct_loop_append[OF assms(2), of "p # post"] assms(1)
  show ?thesis by (simp add: Kind_def handleStruct_def)
qed

lemma walk_elems_all:
  assumes "Kind val \<noteq> Struct"
    and "\<forall>e \<in> set (elems val). ends_nil (handleValue n th e)"
  shows "\<exists>w. handleValue (Suc n) th val = Some w \<and> result w = Success
     \<and> calls w = concat (map (\<lambda>e. calls_of (handleValue n th e)) (elems val))"
proof (cases "data val")
  case (DStruct fs)
  with assms(1) show ?thesis by (simp add: Kind_def)
next
  case (DArray xs)
  with assms(2) have "\<forall>d \<in> set xs. ends_nil (handleValue n th (Index val d))"
    by (simp add: elems_def)
  from handleArray_loop_append[OF this, of "[]"] DArray show ?thesis
    by (simp add: Kind_def handleArray_def elems_def comp_def)
next
  case (DSlice xs)
  with assms(2) have "\<forall>d \<in> set xs. ends_nil (handleValue n th (Index val d))"
    by (simp add: elems_def)
  from handleArray_loop_append[OF this, of "[]"] DSlice show ?thesis
    by (simp add: Kind_def handleArray_def elems_def comp_def)
next
  case (DMap kvs)
  with assms(2) have "\<forall>q \<in> set kvs. ends_nil (handleValue n th (MapIndex val (snd q)))"
    by (simp add: elems_def)
  from handleMap_loop_append[OF this, of "[]"] DMap show ?thesis
    by (simp add: Kind_def handleMap_def elems_def comp_def)
next
  case (DPtr p)
  with assms(2) obtain s where "handleValue n th (Elem val) = Some s" "result s = Success"
    by (auto simp: elems_def ends_nil_def split: option.splits)
  with DPtr show ?thesis by (simp add: Kind_def elems_def calls_of_def)
qed (simp_all add: Kind_def elems_def)

lemma walk_elems_stop:
  assumes "Kind val \<noteq> Struct"
    and "elems val = pre @ v # post"
    and "\<forall>e \<in> set pre. ends_nil (handleValue n th e)"
    and "handleValue n th v = Some s" and "result s \<noteq> Success"
  shows "\<exists>w. handleValue (Suc n) th val = Some w \<and> result w = result s
     \<and> calls w = concat (map (\<lambda>e. calls_of (handleValue n th e)) pre) @ calls s"
proof (cases "data val")
  case (DStruct fs)
  with assms(1) show ?thesis by (simp add: Kind_def)
next
  case (DArray xs)
  with assms(2) obtain xs1 d xs2 where xs: "xs = xs1 @ d # xs2"
    and pre: "pre = map (Index val) xs1" and v: "v = Index val d"
    by (auto simp: elems_def map_eq_append_conv map_eq_Cons_conv)
  have ok: "\<forall>d \<in> set xs1. ends_nil (handleValue n th (Index val d))"
    using assms(3) pre by simp
  have "handleArray_loop (handleValue n th) val (d # xs2)
      = Some \<lparr>result = result s, calls = calls s, after = after s # xs2\<rparr>"
    using assms(4,5) v by simp
  with handleArray_loop_append[OF ok, of "d # xs2"] DArray xs pre show ?thesis
    by (simp add: Kind_def handleArray_def comp_def)
next
  case (DSlice xs)
  with assms(2) obtain xs1 d xs2 where xs: "xs = xs1 @ d # xs2"
    and pre: "pre = map (Index val) xs1" and v: "v = Index val d"
    by (auto simp: elems_def map_eq_append_conv map_eq_Cons_conv)
  have ok: "\<forall>d \<in> set xs1. ends_nil (handleValue n th (Index val d))"
    using assms(3) pre by simp
  have "handleArray_loop (handleValue n th) val (d # xs2)
      = Some \<lparr>result = result s, calls = calls s, after = after s # xs2\<rparr>"
    using assms(4,5) v by simp
  with handleArray_loop_append[OF ok, of "d # xs2"] DSlice xs pre show ?thesis
    by (simp add: Kind_def handleArray_def comp_def)
next
  case (DMap kvs)
  with assms(2) obtain kvs1 q kvs2 where kvs: "kvs = kvs1 @ q # kvs2"
    and pre: "pre = map (\<lambda>p. MapIndex val (snd p)) kvs1" and v: "v = MapIndex val (snd q)"
    by (auto simp: elems_def map_eq_append_conv map_eq_Cons_conv)
  obtain k d where q: "q = (k, d)" by (cases q)
  have ok: "\<forall>q \<in> set kvs1. ends_nil (handleValue n th (MapIndex val (snd q)))"
    using assms(3) pre by simp
  have "handleMap_loop (handleValue n th) val (q # kvs2)
      = Some \<lparr>result = result s, calls = calls s, after = (k, after s) # kvs2\<rparr>"
    using assms(4,5) v by (simp add: q)
  with handleMap_loop_append[OF ok, of "q # kvs2"] DMap kvs pre show ?thesis
    by (simp add: Kind_def handleMap_def comp_def)
next
  case (DPtr p)
  with assms(2) have "pre = []" "v = Elem val"
    by (auto simp: elems_def Cons_eq_append_conv append_eq_Cons_conv)
  with DPtr assms(4) show ?thesis by (simp add: Kind_def)
qed (use assms(2) in \<open>simp_all add: elems_def\<close>)

section \<open>The walk keeps the fields that the callback keeps\<close>

lemma handleStruct_loop_keeps:
  assumes hv: "\<forall>v w. hv v = Some w \<longrightarrow>
                 map snd (visit_order (after w)) = map snd (visit_order (data v))"
    and th: "\<forall>v f. map snd (visit_order (snd (th v f))) = map snd (visit_order (data v))"
  shows "handleStruct_loop hv th val fs = Some ws
    \<Longrightarrow> map snd (visit_order (DStruct (after ws))) = map snd (visit_order (DStruct fs))"
proof (induction fs arbitrary: ws)
  case Nil
  then show ?case by auto
next
  case (Cons p fs)
  obtain f d where p: "p = (f, d)" by (cases p)
  let ?fv = "Value_Field val f d"
  have t: "map snd (visit_order (snd (th ?fv f))) = map snd (visit_order d)"
    using th by (simp add: Value_Field_def)
  show ?case
  proof (cases "fst (th ?fv f) = Success")
    case False
    with Cons.prems have "after ws = (f, snd (th ?fv f)) # fs"
      by (auto simp: p Let_def)
    with t show ?thesis by (simp add: p)
  next
    case ok: True
    then obtain w where w: "hv (?fv\<lparr>data := snd (th ?fv f)\<rparr>) = Some w"
      using Cons.prems by (auto simp: p Let_def split: option.splits)
    have fw: "map snd (visit_order (after w)) = map snd (visit_order d)"
      using hv w t by fastforce
    show ?thesis
    proof (cases "result w = Success")
      case False
      with Cons.prems ok w have "after ws = (f, after w) # fs"
        by (auto simp: p Let_def)
      with fw show ?thesis by (simp add: p)
    next
      case True
      then obtain ws' where ws': "handleStruct_loop hv th val fs = Some ws'"
        and a: "after ws = (f, after w) # after ws'"
        using Cons.prems ok w by (auto simp: p Let_def split: option.splits)
      show ?thesis using Cons.IH[OF ws'] a fw by (simp add: p)
    qed
  qed
qed

lemma handleArray_loop_keeps:
  assumes hv: "\<forall>v w. hv v = Some w \<longrightarrow>
                 map snd (visit_order (after w)) = map snd (visit_order (data v))"
  shows "handleArray_loop hv val xs = Some ws
    \<Longrightarrow> map snd (visit_order (DArray (after ws))) = map snd (visit_order (DArray xs))"
proof (induction xs arbitrary: ws)
  case Nil
  then show ?case by auto
next
  case (Cons d xs)
  then obtain w where w: "hv (Index val d) = Some w"
    by (auto split: option.splits)
  have fw: "map snd (visit_order (after w)) = map snd (visit_order d)"
    using hv w by (fastforce simp: Index_def)
  show ?case
  proof (cases "result w = Success")
    case False
    with Cons.prems w have "after ws = after w # xs" by auto
    with fw show ?thesis by simp
  next
    case True
    then obtain ws' where ws': "handleArray_loop hv val xs = Some ws'"
      and a: "after ws = after w # after ws'"
      using Cons.prems w by (auto split: option.splits)
    show ?thesis using Cons.IH[OF ws'] a fw by simp
  qed
qed

lemma handleMap_loop_keeps:
  assumes hv: "\<forall>v w. hv v = Some w \<longrightarrow>
                 map snd (visit_order (after w)) = map snd (visit_order (data v))"
  shows "handleMap_loop hv val kvs = Some ws
    \<Longrightarrow> map snd (visit_order (DMap (after ws))) = map snd (visit_order (DMap kvs))"
proof (induction kvs arbitrary: ws)
  case Nil
  then show ?case by auto
next
  case (Cons p kvs)
  obtain k d where p: "p = (k, d)" by (cases p)
  from Cons.prems obtain w where w: "hv (MapIndex val d) = Some w"
    by (auto simp: p split: option.splits)
  have fw: "map snd (visit_order (after w)) = map snd (visit_order d)"
    using hv w by (fastforce simp: MapIndex_def)
  show ?case
  proof (cases "result w = Success")
    case False
    with Cons.prems w have "after ws = (k, after w) # kvs" by (auto simp: p)
    with fw show ?thesis by (simp add: p)
  next
    case True
    then obtain ws' where ws': "handleMap_loop hv val kvs = Some ws'"
      and a: "after ws = (k, after w) # after ws'"
      using Cons.prems w by (auto simp: p split: option.splits)
    show ?thesis using Cons.IH[OF ws'] a fw by (simp add: p)
  qed
qed

lemma handleValue_keeps:
  assumes th: "\<forall>v f. map snd (visit_order (snd (th v f))) = map snd (visit_order (data v))"
  shows "handleValue n th val = Some w
    \<Longrightarrow> map snd (visit_order (after w)) = map snd (visit_order (data val))"
proof (induction n arbitrary: val w)
  case 0
  then show ?case by simp
next
  case (Suc n)
  have hv: "\<forall>v w. handleValue n th v = Some w \<longrightarrow>
              map snd (visit_order (after w)) = map snd (visit_order (data v))"
    using Suc.IH by blast
  show ?case
  proof (cases "data val")
    case (DStruct fs)
    with Suc.prems obtain ws where "handleStruct_loop (handleValue n th) th val fs = Some ws"
      "after w = DStruct (after ws)"
      by (auto simp: Kind_def handleStruct_def)
    then show ?thesis using handleStruct_loop_keeps[OF hv th] DStruct by metis
  next
    case (DArray xs)
    with Suc.prems obtain ws where "handleArray_loop (handleValue n th) val xs = Some ws"
      "after w = DArray (after ws)"
      by (auto simp: Kind_def handleArray_def)
    then show ?thesis using handleArray_loop_keeps[OF hv] DArray by metis
  next
    case (DSlice xs)
    with Suc.prems obtain ws where "handleArray_loop (handleValue n th) val xs = Some ws"
      "after w = DSlice (after ws)"
      by (auto simp: Kind_def handleArray_def)
    then show ?thesis using handleArray_loop_keeps[OF hv, of val xs ws] DSlice by simp
  next
    case (DMap kvs)
    with Suc.prems obtain ws where "handleMap_loop (handleValue n th) val kvs = Some ws"
      "after w = DMap (after ws)"
      by (auto simp: Kind_def handleMap_def)
    then show ?thesis using handleMap_loop_keeps[OF hv] DMap by metis
  next
    case (DPtr p)
    show ?thesis
    proof (cases p)
      case None
      with DPtr Suc.prems show ?thesis by (auto simp: Kind_def)
    next
      case (Some d)
      with DPtr Suc.prems obtain w' where w': "handleValue n th (Elem val) = Some w'"
        "after w = DPtr (Some (after w'))"
        by (auto simp: Kind_def)
      with hv have "map snd (visit_order (after w')) = map snd (visit_order (data (Elem val)))"
        by blast
      with DPtr Some w' show ?thesis by (simp add: Elem_def)
    qed
  qed (use Suc.prems in \<open>auto simp: Kind_def\<close>)
qed

lemma handleConfigTag_keeps:
  "map snd (visit_order (snd (handleConfigTag env v f))) = map snd (visit_order (data v))"
  by (cases "data v")
     (auto simp: handleConfigTag_def setValue_def SetString_def SetInt_def Kind_def
           split: option.splits sum.splits)

section \<open>The order of the visits\<close>

text \<open>
  C1. The walk of a struct on whose fields the callback returns \<^verbatim>\<open>nil\<close>, and in
  whose fields the nested walks end with \<^verbatim>\<open>nil\<close>, returns \<^verbatim>\<open>nil\<close>, and its
  invocations of the callback are, for each declared field in declaration order, the
  invocation on the field followed by those of the walk of the field; the walk of a
  sequence, a map or a pointer makes the invocations of the walks of its elements, in
  index order. Hence, under a callback that leaves in a field contents with the fields it
  found and no deeper, the walk of a value returns under every bound above the depth of
  the value, and the fields on which it invoked the callback are a prefix of the
  pre-order enumeration of the declared fields of that value, and the whole enumeration
  when the walk ended with \<^verbatim>\<open>nil\<close>. When the callback leaves the fields as they are,
  the walk leaves the value as it was and the contents passed to the callback are those
  of the enumeration too. Under any callback, the fields of the invocations are so
  ordered in the value as the walk left it.
\<close>

theorem walk_visits_fields_in_order:
  "(data val = DStruct fs
      \<and> (\<forall>p \<in> set fs. fst (th (passed val p) (fst p)) = Success
            \<and> ends_nil (handleValue n th (entered th val p)))
     \<longrightarrow> (\<exists>w. handleValue (Suc n) th val = Some w \<and> result w = Success
           \<and> calls w = concat (map (\<lambda>p. (passed val p, fst p)
                                    # calls_of (handleValue n th (entered th val p))) fs)))
   \<and> (Kind val \<noteq> Struct \<and> (\<forall>e \<in> set (elems val). ends_nil (handleValue n th e))
     \<longrightarrow> (\<exists>w. handleValue (Suc n) th val = Some w \<and> result w = Success
           \<and> calls w = concat (map (\<lambda>e. calls_of (handleValue n th e)) (elems val))))
   \<and> ((\<forall>v f. depth (snd (th v f)) \<le> depth (data v)
            \<and> map snd (visit_order (snd (th v f))) = map snd (visit_order (data v)))
      \<and> depth (data val) < m
     \<longrightarrow> (\<exists>w. handleValue m th val = Some w
           \<and> in_order snd w (map snd (visit_order (data val)))))
   \<and> ((\<forall>v f. snd (th v f) = data v) \<and> depth (data val) < m
     \<longrightarrow> (\<exists>w. handleValue m th val = Some w \<and> after w = data val
           \<and> in_order seen w (visit_order (data val))))
   \<and> (handleValue m th val = Some r
     \<longrightarrow> in_order snd r (map snd (visit_order (after r))))"
proof -
  have 1: "\<exists>w. handleValue (Suc n) th val = Some w \<and> result w = Success
           \<and> calls w = concat (map (\<lambda>p. (passed val p, fst p)
                                    # calls_of (handleValue n th (entered th val p))) fs)"
    if "data val = DStruct fs
      \<and> (\<forall>p \<in> set fs. fst (th (passed val p) (fst p)) = Success
            \<and> ends_nil (handleValue n th (entered th val p)))"
    using walk_struct_all[of val fs th n] that by simp
  have 2: "\<exists>w. handleValue (Suc n) th val = Some w \<and> result w = Success
           \<and> calls w = concat (map (\<lambda>e. calls_of (handleValue n th e)) (elems val))"
    if "Kind val \<noteq> Struct \<and> (\<forall>e \<in> set (elems val). ends_nil (handleValue n th e))"
    using walk_elems_all[of val n th] that by simp
  have 3: "\<exists>w. handleValue m th val = Some w
           \<and> in_order snd w (map snd (visit_order (data val)))"
    if h: "(\<forall>v f. depth (snd (th v f)) \<le> depth (data v)
            \<and> map snd (visit_order (snd (th v f))) = map snd (visit_order (data v)))
      \<and> depth (data val) < m"
  proof -
    from h have "handleValue m th val \<noteq> None" by (intro handleValue_returns) auto
    then obtain w where w: "handleValue m th val = Some w" by auto
    have "map snd (visit_order (after w)) = map snd (visit_order (data val))"
      using h w by (intro handleValue_keeps[of th m val w]) auto
    with handleValue_fields[OF w] w show ?thesis by simp
  qed
  have 4: "\<exists>w. handleValue m th val = Some w \<and> after w = data val
           \<and> in_order seen w (visit_order (data val))"
    if h: "(\<forall>v f. snd (th v f) = data v) \<and> depth (data val) < m"
  proof -
    from h have "handleValue m th val \<noteq> None" by (intro handleValue_returns) auto
    then obtain w where w: "handleValue m th val = Some w" by auto
    with handleValue_untouched[of th m] h show ?thesis
      by (simp add: leaves_alone_def untouched_def)
  qed
  have 5: "in_order snd r (map snd (visit_order (after r)))"
    if "handleValue m th val = Some r"
    using that by (rule handleValue_fields)
  from 1 2 3 4 5 show ?thesis by blast
qed

text \<open>
  The walk of \<^verbatim>\<open>main\<close> over \<^verbatim>\<open>Person\<close> with one friend, under the validation
  handler; the walk of a pointer to a struct that holds an array of two configurations,
  under the configuration handler, which sets every field it visits; one level of that
  walk, at a struct and at the array; and the walk of a map of two names.
\<close>

theorem walk_visits_fields_in_order_witness:
  "map_option (\<lambda>w. (result w, map snd (calls w), after w))
     (handleValue 6 (handleValidateTag Compile_article Sprint_none) (ValueOf Lasse))
    = Some (Success,
        [BirthYear, Name_field, FirstName, LastName, Email, Friends,
         BirthYear, Name_field, FirstName, LastName, Email, Friends],
        Lasse)
   \<and> map_option (\<lambda>w. map seen (calls w))
     (handleValue 6 (handleValidateTag Compile_article Sprint_none) (ValueOf Lasse))
    = Some (visit_order Lasse)
   \<and> map_option (\<lambda>w. (result w, map snd (calls w), after w))
     (handleValue 5 (handleConfigTag env_run) (ValueOf (DPtr (Some Cluster))))
    = Some (Success,
        [Nodes, HttpMaxRetries, ElasticsearchHost, HttpMaxRetries, ElasticsearchHost],
        DPtr (Some (DStruct [(Nodes, DArray [Config 5 ''http://localhost:9200'',
                                            Config 5 ''http://localhost:9200''])])))
   \<and> map snd (visit_order (DPtr (Some Cluster)))
    = [Nodes, HttpMaxRetries, ElasticsearchHost, HttpMaxRetries, ElasticsearchHost]
   \<and> map_option (\<lambda>w. (result w, calls w))
     (handleValue 2 (handleConfigTag env_run)
        \<lparr>data = Config 0 [], flagAddr = True, flagStickyRO = False, flagEmbedRO = False\<rparr>)
    = Some (Success,
        [(\<lparr>data = DInt 0, flagAddr = True, flagStickyRO = False, flagEmbedRO = False\<rparr>, HttpMaxRetries),
         (\<lparr>data = DString [], flagAddr = True, flagStickyRO = False, flagEmbedRO = False\<rparr>, ElasticsearchHost)])
   \<and> map_option (\<lambda>w. (result w, map seen (calls w)))
     (handleValue 3 (handleConfigTag env_run)
        \<lparr>data = DArray [Config 0 [], Config 1 []], flagAddr = True, flagStickyRO = False, flagEmbedRO = False\<rparr>)
    = Some (Success,
        [(DInt 0, HttpMaxRetries), (DString [], ElasticsearchHost),
         (DInt 1, HttpMaxRetries), (DString [], ElasticsearchHost)])
   \<and> map_option (\<lambda>w. (result w, map seen (calls w)))
     (handleValue 3 (handleValidateTag Compile_article Sprint_none)
        \<lparr>data = DMap [(DString ''a'', Name_struct ''Lasse Martin'' ''Jakobsen''),
                       (DString ''b'', Name_struct ''Iaf'' ''Nofrens'')],
         flagAddr = False, flagStickyRO = False, flagEmbedRO = False\<rparr>)
    = Some (Success,
        [(DString ''Lasse Martin'', FirstName), (DString ''Jakobsen'', LastName),
         (DString ''Iaf'', FirstName), (DString ''Nofrens'', LastName)])"
proof -
  let ?mp = "\<lparr>data = DMap [(DString ''a'', Name_struct ''Lasse Martin'' ''Jakobsen''),
                       (DString ''b'', Name_struct ''Iaf'' ''Nofrens'')],
         flagAddr = False, flagStickyRO = False, flagEmbedRO = False\<rparr>"
  let ?hv = "handleValidateTag Compile_article Sprint_none"
  let ?h = "handleConfigTag env_run"
  let ?c = "\<lparr>data = Config 0 [], flagAddr = True, flagStickyRO = False, flagEmbedRO = False\<rparr>"
  let ?a = "\<lparr>data = DArray [Config 0 [], Config 1 []], flagAddr = True, flagStickyRO = False, flagEmbedRO = False\<rparr>"
  let ?fs = "[(HttpMaxRetries, DInt 0), (ElasticsearchHost, DString [])]"
  let ?p = "ValueOf (DPtr (Some Cluster))"
  have keep: "\<forall>v f. snd (?hv v f) = data v" by (simp add: handleValidateTag_leaves_alone)
  have dL: "depth (data (ValueOf Lasse)) < 6"
    by (simp add: ValueOf_def Lasse_def Iaf_def Person_def Name_struct_def)
  from walk_visits_fields_in_order[where th = ?hv and val = "ValueOf Lasse" and m = 6] keep dL
  obtain wL where runL: "handleValue 6 ?hv (ValueOf Lasse) = Some wL"
    and aL: "after wL = data (ValueOf Lasse)"
    and oL: "in_order seen wL (visit_order (data (ValueOf Lasse)))"
    by blast
  have "map_option result (handleValue 6 ?hv (ValueOf Lasse)) = Some Success" by code_simp
  with runL have okL: "result wL = Success" by simp
  have fL: "map snd (visit_order Lasse)
      = [BirthYear, Name_field, FirstName, LastName, Email, Friends,
         BirthYear, Name_field, FirstName, LastName, Email, Friends]"
    by (simp add: Lasse_def Iaf_def Person_def Name_struct_def)
  have sL: "map seen (calls wL) = visit_order Lasse"
    using oL okL by (simp add: in_order_def ValueOf_def)
  have "map snd (map seen (calls wL)) = map snd (calls wL)"
    by (simp add: seen_def comp_def)
  with sL fL have cL: "map snd (calls wL)
      = [BirthYear, Name_field, FirstName, LastName, Email, Friends,
         BirthYear, Name_field, FirstName, LastName, Email, Friends]"
    by simp
  have hyp: "\<forall>v f. depth (snd (?h v f)) \<le> depth (data v)
            \<and> map snd (visit_order (snd (?h v f))) = map snd (visit_order (data v))"
    by (simp add: handleConfigTag_depth handleConfigTag_keeps)
  have dC: "depth (data ?p) < 5" by (simp add: ValueOf_def Cluster_def Config_def)
  from walk_visits_fields_in_order[where th = ?h and val = ?p and m = 5] hyp dC
  obtain wC where runC: "handleValue 5 ?h ?p = Some wC"
    and oC: "in_order snd wC (map snd (visit_order (data ?p)))"
    by blast
  have "map_option (\<lambda>w. (result w, after w)) (handleValue 5 ?h ?p)
      = Some (Success, DPtr (Some (DStruct [(Nodes, DArray [Config 5 ''http://localhost:9200'',
                                            Config 5 ''http://localhost:9200''])])))"
    by code_simp
  with runC have okC: "result wC = Success"
    and aC: "after wC = DPtr (Some (DStruct [(Nodes, DArray [Config 5 ''http://localhost:9200'',
                                            Config 5 ''http://localhost:9200''])]))"
    by simp_all
  have fC: "map snd (visit_order (DPtr (Some Cluster)))
      = [Nodes, HttpMaxRetries, ElasticsearchHost, HttpMaxRetries, ElasticsearchHost]"
    by (simp add: Cluster_def Config_def)
  have cC: "map snd (calls wC)
      = [Nodes, HttpMaxRetries, ElasticsearchHost, HttpMaxRetries, ElasticsearchHost]"
    using oC okC fC by (simp add: in_order_def ValueOf_def)
  from walk_visits_fields_in_order[where th = ?h and val = ?p and m = 5 and r = wC] runC
  have "in_order snd wC (map snd (visit_order (after wC)))" by blast
  have s1: "data ?c = DStruct ?fs" by (simp add: Config_def)
  have s2: "\<forall>p \<in> set ?fs. fst (?h (passed ?c p) (fst p)) = Success
            \<and> ends_nil (handleValue 1 ?h (entered ?h ?c p))"
    by code_simp
  have s3: "concat (map (\<lambda>p. (passed ?c p, fst p) # calls_of (handleValue 1 ?h (entered ?h ?c p))) ?fs)
      = [(\<lparr>data = DInt 0, flagAddr = True, flagStickyRO = False, flagEmbedRO = False\<rparr>, HttpMaxRetries),
         (\<lparr>data = DString [], flagAddr = True, flagStickyRO = False, flagEmbedRO = False\<rparr>, ElasticsearchHost)]"
    by code_simp
  from walk_visits_fields_in_order[where th = ?h and val = ?c and fs = ?fs and n = 1] s1 s2
  obtain wS where runS: "handleValue (Suc 1) ?h ?c = Some wS" and okS: "result wS = Success"
    and cS: "calls wS = concat (map (\<lambda>p. (passed ?c p, fst p)
                                    # calls_of (handleValue 1 ?h (entered ?h ?c p))) ?fs)"
    by blast
  have a1: "Kind ?a \<noteq> Struct" by (simp add: Kind_def)
  have a2: "\<forall>e \<in> set (elems ?a). ends_nil (handleValue 2 ?h e)" by code_simp
  have a3: "map seen (concat (map (\<lambda>e. calls_of (handleValue 2 ?h e)) (elems ?a)))
      = [(DInt 0, HttpMaxRetries), (DString [], ElasticsearchHost),
         (DInt 1, HttpMaxRetries), (DString [], ElasticsearchHost)]"
    by code_simp
  from walk_visits_fields_in_order[where th = ?h and val = ?a and n = 2] a1 a2
  obtain wA where runA: "handleValue (Suc 2) ?h ?a = Some wA" and okA: "result wA = Success"
    and cA: "calls wA = concat (map (\<lambda>e. calls_of (handleValue 2 ?h e)) (elems ?a))"
    by blast
  have m1: "Kind ?mp \<noteq> Struct" by (simp add: Kind_def)
  have m2: "\<forall>e \<in> set (elems ?mp). ends_nil (handleValue 2 ?hv e)" by code_simp
  have m3: "map seen (concat (map (\<lambda>e. calls_of (handleValue 2 ?hv e)) (elems ?mp)))
      = [(DString ''Lasse Martin'', FirstName), (DString ''Jakobsen'', LastName),
         (DString ''Iaf'', FirstName), (DString ''Nofrens'', LastName)]"
    by code_simp
  from walk_visits_fields_in_order[where th = ?hv and val = ?mp and n = 2] m1 m2
  obtain wM where runM: "handleValue (Suc 2) ?hv ?mp = Some wM" and okM: "result wM = Success"
    and cM: "calls wM = concat (map (\<lambda>e. calls_of (handleValue 2 ?hv e)) (elems ?mp))"
    by blast
  have chkL: "map_option (\<lambda>w. map snd (calls w)) (handleValue 6 ?hv (ValueOf Lasse))
      = Some [BirthYear, Name_field, FirstName, LastName, Email, Friends,
         BirthYear, Name_field, FirstName, LastName, Email, Friends]"
    by code_simp
  have chkC: "map_option (\<lambda>w. map snd (calls w)) (handleValue 5 ?h ?p)
      = Some [Nodes, HttpMaxRetries, ElasticsearchHost, HttpMaxRetries, ElasticsearchHost]"
    by code_simp
  have chkS: "map_option (\<lambda>w. length (calls w)) (handleValue 2 ?h ?c) = Some 2" by code_simp
  have chkA: "map_option (\<lambda>w. map seen (calls w)) (handleValue 3 ?h ?a)
      = Some [(DInt 0, HttpMaxRetries), (DString [], ElasticsearchHost),
         (DInt 1, HttpMaxRetries), (DString [], ElasticsearchHost)]"
    by code_simp
  have chkM: "map_option (\<lambda>w. map snd (calls w)) (handleValue 3 ?hv ?mp)
      = Some [FirstName, LastName, FirstName, LastName]"
    by code_simp
  have two: "Suc 1 = 2" "Suc 2 = 3" by simp_all
  show ?thesis
    using chkL chkC chkS chkA chkM
      runL okL cL aL sL runC okC cC aC fC runS okS cS s3 runA okA cA a3 runM okM cM m3
    unfolding two by (simp add: ValueOf_def)
qed

section \<open>The first failure\<close>

text \<open>
  C2. Under a callback that leaves in a field contents no deeper than it found, the walk
  of a value returns under every bound above the depth of the value, and what it returns
  is fail-fast: every invocation it made returned \<^verbatim>\<open>nil\<close>, except that the last one
  returned what the walk returns, when that is not \<^verbatim>\<open>nil\<close>. Under any callback, an
  invocation that returns something other than \<^verbatim>\<open>nil\<close> is the last invocation of the
  walk, and the walk returns just what that invocation returned. And at each level:
  when the callback fails on a field of a struct, after fields that were walked to the
  end, the walk of the struct returns what the callback returned, having made the
  invocations on the earlier fields and this one, none in the field and none on a later
  field, which is left as it was; when the walk of a field, of an element, of a map value
  or of a pointee fails, the enclosing walk returns the same, with no invocation after
  those of the failed walk.
\<close>

theorem walk_returns_first_failure:
  "((\<forall>v f. depth (snd (th v f)) \<le> depth (data v)) \<and> depth (data val) < m
     \<longrightarrow> (\<exists>w. handleValue m th val = Some w \<and> fail_fast th w))
   \<and> (handleValue m th val = Some r \<and> i < length (calls r)
        \<and> fst (th (fst (calls r ! i)) (snd (calls r ! i))) \<noteq> Success
     \<longrightarrow> Suc i = length (calls r)
        \<and> result r = fst (th (fst (calls r ! i)) (snd (calls r ! i))))
   \<and> (data val = DStruct (pre @ p # post)
        \<and> (\<forall>q \<in> set pre. fst (th (passed val q) (fst q)) = Success
              \<and> ends_nil (handleValue n th (entered th val q)))
        \<and> fst (th (passed val p) (fst p)) \<noteq> Success
     \<longrightarrow> handleValue (Suc n) th val = Some
          \<lparr>result = fst (th (passed val p) (fst p)),
           calls = concat (map (\<lambda>q. (passed val q, fst q)
                                      # calls_of (handleValue n th (entered th val q))) pre)
                     @ [(passed val p, fst p)],
           after = DStruct (map (\<lambda>q. (fst q, after (the (handleValue n th (entered th val q))))) pre
                     @ (fst p, snd (th (passed val p) (fst p))) # post)\<rparr>)
   \<and> (data val = DStruct (pre @ p # post)
        \<and> (\<forall>q \<in> set pre. fst (th (passed val q) (fst q)) = Success
              \<and> ends_nil (handleValue n th (entered th val q)))
        \<and> fst (th (passed val p) (fst p)) = Success
        \<and> handleValue n th (entered th val p) = Some s \<and> result s \<noteq> Success
     \<longrightarrow> handleValue (Suc n) th val = Some
          \<lparr>result = result s,
           calls = concat (map (\<lambda>q. (passed val q, fst q)
                                      # calls_of (handleValue n th (entered th val q))) pre)
                     @ (passed val p, fst p) # calls s,
           after = DStruct (map (\<lambda>q. (fst q, after (the (handleValue n th (entered th val q))))) pre
                     @ (fst p, after s) # post)\<rparr>)
   \<and> (Kind val \<noteq> Struct \<and> elems val = es @ e # es'
        \<and> (\<forall>x \<in> set es. ends_nil (handleValue n th x))
        \<and> handleValue n th e = Some s \<and> result s \<noteq> Success
     \<longrightarrow> (\<exists>w. handleValue (Suc n) th val = Some w \<and> result w = result s
           \<and> calls w = concat (map (\<lambda>x. calls_of (handleValue n th x)) es) @ calls s))"
proof -
  have 1: "\<exists>w. handleValue m th val = Some w \<and> fail_fast th w"
    if h: "(\<forall>v f. depth (snd (th v f)) \<le> depth (data v)) \<and> depth (data val) < m"
  proof -
    from h have "handleValue m th val \<noteq> None" by (intro handleValue_returns) auto
    then obtain w where w: "handleValue m th val = Some w" by auto
    with handleValue_fail_fast[OF w] show ?thesis by simp
  qed
  have 2: "Suc i = length (calls r)
        \<and> result r = fst (th (fst (calls r ! i)) (snd (calls r ! i)))"
    if h: "handleValue m th val = Some r \<and> i < length (calls r)
        \<and> fst (th (fst (calls r ! i)) (snd (calls r ! i))) \<noteq> Success"
  proof -
    have ff: "fail_fast th r" using h handleValue_fail_fast by blast
    show ?thesis
    proof (cases "result r = Success")
      case True
      with ff have "list_all (succeeded th) (calls r)" by (simp add: fail_fast_def)
      with h show ?thesis by (auto simp: list_all_length succeeded_def)
    next
      case False
      with ff obtain cs c where c: "calls r = cs @ [c]" "list_all (succeeded th) cs"
        "fst (th (fst c) (snd c)) = result r"
        by (auto simp: fail_fast_def)
      have "\<not> i < length cs"
      proof
        assume "i < length cs"
        with c(1,2) have "succeeded th (calls r ! i)" by (simp add: list_all_length nth_append)
        with h show False by (simp add: succeeded_def)
      qed
      with h c(1) have "i = length cs" by simp
      with c show ?thesis by simp
    qed
  qed
  note 3 = walk_struct_stop[of val pre p post th n]
  note 4 = walk_struct_nested_stop[of val pre p post th n s]
  note 5 = walk_elems_stop[of val es e es' n th s]
  from 1 2 3 4 5 show ?thesis by blast
qed

text \<open>
  The value of the article with the invalid e-mail of the friend: the walk fails on the
  field \<^verbatim>\<open>Email\<close> of the friend, which is in an element of the slice \<^verbatim>\<open>Friends\<close>, with
  the error of that invocation; \<^verbatim>\<open>Friends\<close> of the friend is not visited. The same
  friend as the value of a map entry. And the walk of
  a pointer to \<^verbatim>\<open>Service\<close> with a malformed \<^verbatim>\<open>HTTP_MAX_RETRIES\<close>: the callback fails on
  the nested \<^verbatim>\<open>HttpMaxRetries\<close>, its second invocation; the later siblings
  \<^verbatim>\<open>ElasticsearchHost\<close>, nested and outer, are not visited.
\<close>

theorem walk_returns_first_failure_witness:
  "map_option (\<lambda>w. (result w, map snd (calls w)))
     (handleValue 6 (handleValidateTag Compile_article Sprint_none) (ValueOf Lasse_invalid))
    = Some (Failure (errorString
              (''invalid field (string::Email) l33tboi95@hotmail != '' @ email_pattern)),
        [BirthYear, Name_field, FirstName, LastName, Email, Friends,
         BirthYear, Name_field, FirstName, LastName, Email])
   \<and> handleValidateTag Compile_article Sprint_none
        \<lparr>data = DString ''l33tboi95@hotmail'', flagAddr = True, flagStickyRO = False, flagEmbedRO = False\<rparr>
        Email
    = (Failure (errorString
              (''invalid field (string::Email) l33tboi95@hotmail != '' @ email_pattern)),
       DString ''l33tboi95@hotmail'')
   \<and> map_option (fail_fast (handleValidateTag Compile_article Sprint_none))
     (handleValue 6 (handleValidateTag Compile_article Sprint_none) (ValueOf Lasse_invalid))
    = Some True
   \<and> map_option (\<lambda>w. (result w, map snd (calls w)))
     (handleValue 4 (handleValidateTag Compile_article Sprint_none)
        \<lparr>data = DMap [(DString ''iaf'', Iaf_invalid)],
         flagAddr = False, flagStickyRO = False, flagEmbedRO = False\<rparr>)
    = Some (Failure (errorString
              (''invalid field (string::Email) l33tboi95@hotmail != '' @ email_pattern)),
        [BirthYear, Name_field, FirstName, LastName, Email])
   \<and> handleValue 4 (handleConfigTag env_bad) (ValueOf (DPtr (Some Service))) = Some
    \<lparr>result = Failure (NumError ''Atoi'' ''abc'' ''invalid syntax''),
     calls = [(\<lparr>data = Config 0 [], flagAddr = True, flagStickyRO = False, flagEmbedRO = False\<rparr>, Inner),
              (\<lparr>data = DInt 0, flagAddr = True, flagStickyRO = False, flagEmbedRO = False\<rparr>, HttpMaxRetries)],
     after = DPtr (Some Service)\<rparr>
   \<and> fst (handleConfigTag env_bad \<lparr>data = DInt 0, flagAddr = True, flagStickyRO = False, flagEmbedRO = False\<rparr> HttpMaxRetries)
       = Failure (NumError ''Atoi'' ''abc'' ''invalid syntax'')"
proof -
  let ?hv = "handleValidateTag Compile_article Sprint_none"
  let ?err = "Failure (errorString
              (''invalid field (string::Email) l33tboi95@hotmail != '' @ email_pattern))"
  let ?r = "ValueOf Lasse_invalid"
  let ?sl = "\<lparr>data = DSlice [DPtr (Some Iaf_invalid)], flagAddr = False, flagStickyRO = False, flagEmbedRO = False\<rparr>"
  let ?pt = "\<lparr>data = DPtr (Some Iaf_invalid), flagAddr = True, flagStickyRO = False, flagEmbedRO = False\<rparr>"
  let ?f = "\<lparr>data = Iaf_invalid, flagAddr = True, flagStickyRO = False, flagEmbedRO = False\<rparr>"
  let ?pre = "[(BirthYear, DInt 1992), (Name_field, Name_struct ''Iaf'' ''Nofrens'')]"
  let ?p = "(Email, DString ''l33tboi95@hotmail'')"
  let ?post = "[(Friends, DSlice [])]"
  let ?pre' = "[(BirthYear, DInt 1990), (Name_field, Name_struct ''Lasse Martin'' ''Jakobsen''),
                (Email, DString ''lasse@tengen.dk'')]"
  let ?p' = "(Friends, DSlice [DPtr (Some Iaf_invalid)])"
  have num: "Suc 2 = 3" "Suc 3 = 4" "Suc 4 = 5" "Suc 5 = 6" by simp_all

  have ne: "?err \<noteq> Success" by simp
  have f1: "data ?f = DStruct (?pre @ ?p # ?post)" by (simp add: Iaf_invalid_def Person_def)
  have f2: "\<forall>q \<in> set ?pre. fst (?hv (passed ?f q) (fst q)) = Success
              \<and> ends_nil (handleValue 2 ?hv (entered ?hv ?f q))"
    by code_simp
  have f3: "?hv (passed ?f ?p) (fst ?p) = (?err, DString ''l33tboi95@hotmail'')" by code_simp
  have f3': "fst (?hv (passed ?f ?p) (fst ?p)) \<noteq> Success" unfolding f3 by simp
  have f4: "map snd (concat (map (\<lambda>q. (passed ?f q, fst q)
                 # calls_of (handleValue 2 ?hv (entered ?hv ?f q))) ?pre))
      = [BirthYear, Name_field, FirstName, LastName]"
    by code_simp
  have f5: "passed ?f ?p
      = \<lparr>data = DString ''l33tboi95@hotmail'', flagAddr = True, flagStickyRO = False, flagEmbedRO = False\<rparr>"
    by code_simp
  have "\<exists>w. handleValue (Suc 2) ?hv ?f = Some w
      \<and> result w = fst (?hv (passed ?f ?p) (fst ?p))
      \<and> calls w = concat (map (\<lambda>q. (passed ?f q, fst q)
                 # calls_of (handleValue 2 ?hv (entered ?hv ?f q))) ?pre) @ [(passed ?f ?p, fst ?p)]"
    using walk_returns_first_failure[where th = ?hv and val = ?f and pre = ?pre and p = ?p
      and post = ?post and n = 2] f1 f2 f3'
    by simp
  then obtain wF where runF: "handleValue 3 ?hv ?f = Some wF"
    and rF: "result wF = fst (?hv (passed ?f ?p) (fst ?p))"
    and cF: "calls wF = concat (map (\<lambda>q. (passed ?f q, fst q)
                 # calls_of (handleValue 2 ?hv (entered ?hv ?f q))) ?pre) @ [(passed ?f ?p, fst ?p)]"
    unfolding num by blast
  have rF': "result wF = ?err" unfolding rF f3 by simp
  have rF'': "result wF \<noteq> Success" unfolding rF' by simp
  have cF': "map snd (calls wF) = [BirthYear, Name_field, FirstName, LastName, Email]"
    unfolding cF using f4 by simp

  have p1: "Kind ?pt \<noteq> Struct" by (simp add: Kind_def)
  have p2: "elems ?pt = [] @ ?f # []" by (simp add: elems_def Elem_def)
  have p3: "\<forall>x \<in> set []. ends_nil (handleValue 3 ?hv x)" by simp
  have "\<exists>w. handleValue (Suc 3) ?hv ?pt = Some w \<and> result w = result wF
      \<and> calls w = concat (map (\<lambda>x. calls_of (handleValue 3 ?hv x)) []) @ calls wF"
    using walk_returns_first_failure[where th = ?hv and val = ?pt and es = "[]" and e = ?f
      and es' = "[]" and n = 3 and s = wF] p1 p2 p3 runF rF''
    by blast
  then obtain wP where runP: "handleValue 4 ?hv ?pt = Some wP"
    and rP: "result wP = result wF" and cP: "calls wP = calls wF"
    unfolding num by auto
  have rP'': "result wP \<noteq> Success" unfolding rP by (rule rF'')

  have s1: "Kind ?sl \<noteq> Struct" by (simp add: Kind_def)
  have s2: "elems ?sl = [] @ ?pt # []" by (simp add: Kind_def elems_def Index_def flagRO_def)
  have s3: "\<forall>x \<in> set []. ends_nil (handleValue 4 ?hv x)" by simp
  have "\<exists>w. handleValue (Suc 4) ?hv ?sl = Some w \<and> result w = result wP
      \<and> calls w = concat (map (\<lambda>x. calls_of (handleValue 4 ?hv x)) []) @ calls wP"
    using walk_returns_first_failure[where th = ?hv and val = ?sl and es = "[]" and e = ?pt
      and es' = "[]" and n = 4 and s = wP] s1 s2 s3 runP rP''
    by blast
  then obtain wS where runS: "handleValue 5 ?hv ?sl = Some wS"
    and rS: "result wS = result wP" and cS: "calls wS = calls wP"
    unfolding num by auto
  have rS'': "result wS \<noteq> Success" unfolding rS by (rule rP'')

  have r1: "data ?r = DStruct (?pre' @ ?p' # [])"
    by (simp add: ValueOf_def Lasse_invalid_def Person_def)
  have r2: "\<forall>q \<in> set ?pre'. fst (?hv (passed ?r q) (fst q)) = Success
              \<and> ends_nil (handleValue 5 ?hv (entered ?hv ?r q))"
    by code_simp
  have r3: "fst (?hv (passed ?r ?p') (fst ?p')) = Success" by code_simp
  have r4: "entered ?hv ?r ?p' = ?sl"
    by (simp add: entered_def passed_def Value_Field_def handleValidateTag_leaves_alone
          ValueOf_def Friends_def)
  have r4': "handleValue 5 ?hv (entered ?hv ?r ?p') = Some wS" unfolding r4 by (rule runS)
  have r5: "map snd (concat (map (\<lambda>q. (passed ?r q, fst q)
                 # calls_of (handleValue 5 ?hv (entered ?hv ?r q))) ?pre'))
      = [BirthYear, Name_field, FirstName, LastName, Email]"
    by code_simp
  have "\<exists>w. handleValue (Suc 5) ?hv ?r = Some w \<and> result w = result wS
      \<and> calls w = concat (map (\<lambda>q. (passed ?r q, fst q)
                 # calls_of (handleValue 5 ?hv (entered ?hv ?r q))) ?pre')
               @ (passed ?r ?p', fst ?p') # calls wS"
    using walk_returns_first_failure[where th = ?hv and val = ?r and pre = ?pre' and p = ?p'
      and post = "[]" and n = 5 and s = wS] r1 r2 r3 r4' rS''
    by simp
  then obtain wR where runR: "handleValue 6 ?hv ?r = Some wR"
    and rR: "result wR = result wS"
    and cR: "calls wR = concat (map (\<lambda>q. (passed ?r q, fst q)
                 # calls_of (handleValue 5 ?hv (entered ?hv ?r q))) ?pre')
               @ (passed ?r ?p', fst ?p') # calls wS"
    unfolding num by blast
  have rR': "result wR = ?err" unfolding rR rS rP by (rule rF')
  have cR': "map snd (calls wR) = [BirthYear, Name_field, FirstName, LastName, Email, Friends,
         BirthYear, Name_field, FirstName, LastName, Email]"
    unfolding cR using r5 cS cP cF' by simp

  have keep: "\<forall>v f. depth (snd (?hv v f)) \<le> depth (data v)"
    by (simp add: handleValidateTag_leaves_alone)
  have dR: "depth (data ?r) < 6"
    by (simp add: ValueOf_def Lasse_invalid_def Iaf_invalid_def Person_def Name_struct_def)
  from walk_returns_first_failure[where th = ?hv and val = ?r and m = 6] keep dR
  obtain w where run: "handleValue 6 ?hv ?r = Some w" and ff: "fail_fast ?hv w" by blast

  let ?c = "(\<lparr>data = DInt 0, flagAddr = True, flagStickyRO = False, flagEmbedRO = False\<rparr>, HttpMaxRetries)"
  let ?w = "\<lparr>result = Failure (NumError ''Atoi'' ''abc'' ''invalid syntax''),
     calls = [(\<lparr>data = Config 0 [], flagAddr = True, flagStickyRO = False, flagEmbedRO = False\<rparr>, Inner), ?c],
     after = DPtr (Some Service)\<rparr>"
  have i: "1 < length (calls ?w)" by simp
  have c: "calls ?w ! 1 = ?c" by simp
  have bad: "fst (handleConfigTag env_bad (fst ?c) (snd ?c)) \<noteq> Success"
    by code_simp
  have "result ?w = fst (handleConfigTag env_bad (fst (calls ?w ! 1)) (snd (calls ?w ! 1)))"
    using walk_returns_first_failure[where th = "handleConfigTag env_bad"
        and val = "ValueOf (DPtr (Some Service))" and m = 4 and r = ?w and i = 1]
      Service_env_bad i bad unfolding c by blast
  then have cfg: "fst (handleConfigTag env_bad \<lparr>data = DInt 0, flagAddr = True, flagStickyRO = False, flagEmbedRO = False\<rparr> HttpMaxRetries)
      = Failure (NumError ''Atoi'' ''abc'' ''invalid syntax'')"
    unfolding c by simp
  let ?mp = "\<lparr>data = DMap [(DString ''iaf'', Iaf_invalid)],
         flagAddr = False, flagStickyRO = False, flagEmbedRO = False\<rparr>"
  let ?mv = "\<lparr>data = Iaf_invalid, flagAddr = False, flagStickyRO = False, flagEmbedRO = False\<rparr>"
  have "handleValue 3 ?hv ?mv \<noteq> None" by code_simp
  then obtain wV where runV: "handleValue 3 ?hv ?mv = Some wV" by blast
  have "map_option (\<lambda>w. (result w, map snd (calls w))) (handleValue 3 ?hv ?mv)
      = Some (?err, [BirthYear, Name_field, FirstName, LastName, Email])"
    by code_simp
  then have rV: "result wV = ?err"
    and cV: "map snd (calls wV) = [BirthYear, Name_field, FirstName, LastName, Email]"
    unfolding runV by simp_all
  have rV'': "result wV \<noteq> Success" unfolding rV by simp
  have q1: "Kind ?mp \<noteq> Struct" by (simp add: Kind_def)
  have q2: "elems ?mp = [] @ ?mv # []" by (simp add: elems_def MapIndex_def flagRO_def)
  have q3: "\<forall>x \<in> set []. ends_nil (handleValue 3 ?hv x)" by simp
  have "\<exists>w. handleValue (Suc 3) ?hv ?mp = Some w \<and> result w = result wV
      \<and> calls w = concat (map (\<lambda>x. calls_of (handleValue 3 ?hv x)) []) @ calls wV"
    using walk_returns_first_failure[where th = ?hv and val = ?mp and es = "[]" and e = ?mv
      and es' = "[]" and n = 3 and s = wV] q1 q2 q3 runV rV''
    by blast
  then obtain wM where runM: "handleValue 4 ?hv ?mp = Some wM"
    and rM: "result wM = result wV" and cM: "calls wM = calls wV"
    unfolding num by auto
  have chkM: "map_option (\<lambda>w. length (calls w)) (handleValue 4 ?hv ?mp) = Some 5" by code_simp
  have mp: "map_option (\<lambda>w. (result w, map snd (calls w))) (handleValue 4 ?hv ?mp)
      = Some (?err, [BirthYear, Name_field, FirstName, LastName, Email])"
    using chkM unfolding runM using rM rV cM cV by simp
  have e: "?hv \<lparr>data = DString ''l33tboi95@hotmail'', flagAddr = True, flagStickyRO = False, flagEmbedRO = False\<rparr>
        Email = (?err, DString ''l33tboi95@hotmail'')"
    using f3 unfolding f5 by simp
  have run6: "map_option (\<lambda>w. (result w, length (calls w))) (handleValue 6 ?hv ?r)
      = Some (?err, 11)"
    by code_simp
  have a: "map_option (\<lambda>w. (result w, map snd (calls w))) (handleValue 6 ?hv ?r)
      = Some (?err, [BirthYear, Name_field, FirstName, LastName, Email, Friends,
         BirthYear, Name_field, FirstName, LastName, Email])"
    using run6 unfolding runR using rR' cR' by simp
  have b: "map_option (fail_fast ?hv) (handleValue 6 ?hv ?r) = Some True"
    unfolding run using ff by simp
  from a e b mp Service_env_bad cfg show ?thesis by blast
qed

section \<open>Termination\<close>






section \<open>The configuration handler\<close>

text \<open>
  C7. The configuration handler returns \<^verbatim>\<open>nil\<close> and leaves the field as it is when the
  field has no \<^verbatim>\<open>conf\<close> tag, when the environment variable the tag names is unset,
  and when the kind of the field is neither \<^verbatim>\<open>String\<close> nor \<^verbatim>\<open>Int\<close>.
\<close>

theorem config_handler_leaves_field:
  "(Lookup (Tag field) ''conf'' = None \<longrightarrow>
      handleConfigTag env value field = (Success, data value))
   \<and> (Lookup (Tag field) ''conf'' = Some tag \<and> env tag = None \<longrightarrow>
      handleConfigTag env value field = (Success, data value))
   \<and> (Kind value \<noteq> String \<and> Kind value \<noteq> Int_kind \<longrightarrow>
      handleConfigTag env value field = (Success, data value))"
proof -
  have "setValue value envvar = (Success, data value)"
    if "Kind value \<noteq> String \<and> Kind value \<noteq> Int_kind" for envvar
    using that by (cases "Kind value") (simp_all add: setValue_def)
  then show ?thesis
    by (auto simp: handleConfigTag_def split: option.splits)
qed

text \<open>
  An untagged field; a tagged field in an empty environment; a tagged
  \<^verbatim>\<open>float64\<close> whose variable is set.
\<close>

theorem config_handler_leaves_field_witness:
  "handleConfigTag env_run \<lparr>data = Config 0 [], flagAddr = True, flagStickyRO = False, flagEmbedRO = False\<rparr> Inner
      = (Success, Config 0 [])
   \<and> handleConfigTag Map.empty \<lparr>data = DInt 3, flagAddr = True, flagStickyRO = False, flagEmbedRO = False\<rparr> HttpMaxRetries
      = (Success, DInt 3)
   \<and> handleConfigTag env_run \<lparr>data = DOther ''float64'' ''1.5'', flagAddr = True, flagStickyRO = False, flagEmbedRO = False\<rparr> Timeout
      = (Success, DOther ''float64'' ''1.5'')"
proof -
  have 1: "Lookup (Tag Inner) ''conf'' = None" by (simp add: Lookup_def Inner_def)
  have 2: "Lookup (Tag HttpMaxRetries) ''conf'' = Some ''HTTP_MAX_RETRIES''
      \<and> Map.empty ''HTTP_MAX_RETRIES'' = (None :: string option)"
    by (simp add: Lookup_def HttpMaxRetries_def)
  have 3: "Kind \<lparr>data = DOther ''float64'' ''1.5'', flagAddr = True, flagStickyRO = False, flagEmbedRO = False\<rparr> \<noteq> String
      \<and> Kind \<lparr>data = DOther ''float64'' ''1.5'', flagAddr = True, flagStickyRO = False, flagEmbedRO = False\<rparr> \<noteq> Int_kind"
    by (simp add: Kind_def)
  show ?thesis
    using config_handler_leaves_field[of Inner env_run
        "\<lparr>data = Config 0 [], flagAddr = True, flagStickyRO = False, flagEmbedRO = False\<rparr>"] 1
      config_handler_leaves_field[of HttpMaxRetries Map.empty
        "\<lparr>data = DInt 3, flagAddr = True, flagStickyRO = False, flagEmbedRO = False\<rparr>" "''HTTP_MAX_RETRIES''"] 2
      config_handler_leaves_field[of Timeout env_run
        "\<lparr>data = DOther ''float64'' ''1.5'', flagAddr = True, flagStickyRO = False, flagEmbedRO = False\<rparr>"] 3
    by simp
qed

lemma ParseUint_loop_error:
  "ParseUint_loop n s = Inl r \<Longrightarrow> r = ErrSyntax \<or> r = ErrRange"
  by (induction n s rule: ParseUint_loop.induct) (auto split: if_splits)

lemma ParseInt_error: "ParseInt s = Inl r \<Longrightarrow> r = ErrSyntax \<or> r = ErrRange"
  by (auto simp: ParseInt_def ParseUint_def Let_def split: if_splits sum.splits
           dest: ParseUint_loop_error)

lemma Atoi_error: "Atoi s = Inl e \<Longrightarrow> \<exists>r. e = NumError ''Atoi'' s r \<and> (r = ErrSyntax \<or> r = ErrRange)"
  by (auto simp: Atoi_def split: sum.splits dest: ParseInt_error)

text \<open>
  C8, as amended. When the variable is set and \<^verbatim>\<open>strconv.Atoi\<close> rejects its content,
  the handler on a field of kind \<^verbatim>\<open>Int\<close> returns the error of \<^verbatim>\<open>Atoi\<close> as it is and
  leaves the field: a \<^verbatim>\<open>NumError\<close> with the function name, the raw content, and the
  reason, which is a syntax or a range error. It is the same error whatever the name of
  the field.
\<close>

theorem config_handler_parse_error:
  assumes "Lookup (Tag field) ''conf'' = Some tag" and "env tag = Some envvar"
    and "Kind value = Int_kind" and "Atoi envvar = Inl e"
  shows "handleConfigTag env value field = (Failure e, data value)
     \<and> (e = NumError ''Atoi'' envvar ErrSyntax \<or> e = NumError ''Atoi'' envvar ErrRange)
     \<and> handleConfigTag env value (field\<lparr>Name := x\<rparr>) = (Failure e, data value)"
  using assms Atoi_error[OF assms(4)]
  by (auto simp: handleConfigTag_def setValue_def)

text \<open>\<^verbatim>\<open>HTTP_MAX_RETRIES=abc\<close>, and the same field under another name.\<close>

theorem config_handler_parse_error_witness:
  "Lookup (Tag HttpMaxRetries) ''conf'' = Some ''HTTP_MAX_RETRIES''
   \<and> env_bad ''HTTP_MAX_RETRIES'' = Some ''abc''
   \<and> Atoi ''abc'' = Inl (NumError ''Atoi'' ''abc'' ErrSyntax)
   \<and> handleConfigTag env_bad \<lparr>data = DInt 0, flagAddr = True, flagStickyRO = False, flagEmbedRO = False\<rparr> HttpMaxRetries
       = (Failure (NumError ''Atoi'' ''abc'' ErrSyntax), DInt 0)
   \<and> handleConfigTag env_bad \<lparr>data = DInt 0, flagAddr = True, flagStickyRO = False, flagEmbedRO = False\<rparr>
        (HttpMaxRetries\<lparr>Name := ''Retries''\<rparr>)
       = (Failure (NumError ''Atoi'' ''abc'' ErrSyntax), DInt 0)"
proof -
  have 1: "Lookup (Tag HttpMaxRetries) ''conf'' = Some ''HTTP_MAX_RETRIES''"
    by (simp add: Lookup_def HttpMaxRetries_def)
  have 2: "env_bad ''HTTP_MAX_RETRIES'' = Some ''abc''" by (simp add: env_bad_def)
  have 3: "Kind \<lparr>data = DInt 0, flagAddr = True, flagStickyRO = False, flagEmbedRO = False\<rparr> = Int_kind"
    by (simp add: Kind_def)
  have 4: "Atoi ''abc'' = Inl (NumError ''Atoi'' ''abc'' ErrSyntax)"
    by (simp add: Atoi_def ParseInt_def ParseUint_def isDigit_def)
  from config_handler_parse_error[where env = env_bad and x = "''Retries''", OF 1 2 3 4] 1 2 4
  show ?thesis by simp
qed

text \<open>
  C8 as stated fails: the error for \<^verbatim>\<open>HttpMaxRetries\<close> with content \<^verbatim>\<open>abc\<close> holds the
  content and not the name of the field.
\<close>

theorem parse_error_omits_field_name:
  "handleConfigTag env_bad \<lparr>data = DInt 0, flagAddr = True, flagStickyRO = False, flagEmbedRO = False\<rparr> HttpMaxRetries
     = (Failure (NumError ''Atoi'' ''abc'' ''invalid syntax''), DInt 0)
   \<and> \<not> mentions (NumError ''Atoi'' ''abc'' ''invalid syntax'') (Name HttpMaxRetries)
   \<and> mentions (NumError ''Atoi'' ''abc'' ''invalid syntax'') ''abc''"
  by code_simp


lemma depth_0_walk:
  "depth (data v) = 0 \<Longrightarrow>
    handleValue (Suc n) th v = Some \<lparr>result = Success, calls = [], after = data v\<rparr>"
  by (cases "data v") (auto simp: Kind_def split: option.splits)

lemma handleStruct_loop_flat:
  assumes hv: "\<forall>v. depth (data v) = 0 \<longrightarrow>
      hv v = Some \<lparr>result = Success, calls = [], after = data v\<rparr>"
    and th: "\<forall>v f. depth (snd (th v f)) \<le> depth (data v)"
  shows "\<forall>p \<in> set fs. depth (snd p) = 0 \<Longrightarrow> handleStruct_loop hv th val fs = Some ws
    \<Longrightarrow> result ws = Success
    \<Longrightarrow> after ws = map (\<lambda>(f, d). (f, snd (th (Value_Field val f d) f))) fs"
proof (induction fs arbitrary: ws)
  case Nil
  then show ?case by auto
next
  case (Cons p fs)
  obtain f d where p: "p = (f, d)" by (cases p)
  let ?fv = "Value_Field val f d"
  have "depth (snd (th ?fv f)) \<le> depth (data ?fv)" using th by blast
  moreover have "depth d = 0" using Cons.prems(1) by (simp add: p)
  ultimately have "depth (data (?fv\<lparr>data := snd (th ?fv f)\<rparr>)) = 0"
    by (simp add: Value_Field_def)
  then have w: "hv (?fv\<lparr>data := snd (th ?fv f)\<rparr>)
      = Some \<lparr>result = Success, calls = [], after = snd (th ?fv f)\<rparr>"
    using hv by simp
  from Cons.prems(2,3) w obtain ws' where ws': "handleStruct_loop hv th val fs = Some ws'"
    "result ws' = Success" "after ws = (f, snd (th ?fv f)) # after ws'"
    by (auto simp: p Let_def split: if_splits option.splits)
  with Cons.IH[OF _ ws'(1,2)] Cons.prems(1) show ?case by (simp add: p)
qed

lemma Atoi_5: "Atoi ''5'' = Inr 5"
  by (simp add: Atoi_def ParseInt_def ParseUint_def isDigit_def maxUint64_def)

text \<open>
  C6, as amended. With the variable set, the handler on a value that can be set (it is
  addressable and was not reached through an unexported field) assigns the content as it
  is to a field of kind \<^verbatim>\<open>String\<close>, and the number \<^verbatim>\<open>Atoi\<close> reads in the content to
  a field of kind \<^verbatim>\<open>Int\<close>; \<^verbatim>\<open>"5"\<close> reads as 5. The walk of a pointer to a struct of
  scalar fields, when it ends with \<^verbatim>\<open>nil\<close>, leaves in each field of the struct pointed
  to what the handler assigned.
\<close>

theorem config_handler_assigns:
  assumes "Lookup (Tag field) ''conf'' = Some tag" and "env tag = Some envvar"
  shows "(CanSet value \<and> Kind value = String \<longrightarrow>
            handleConfigTag env value field = (Success, DString envvar))
     \<and> (CanSet value \<and> Kind value = Int_kind \<and> Atoi envvar = Inr k \<longrightarrow>
            handleConfigTag env value field = (Success, DInt k))
     \<and> Atoi ''5'' = Inr 5
     \<and> ((\<forall>p \<in> set fs. depth (snd p) = 0)
          \<and> handleValue (Suc (Suc (Suc n))) (handleConfigTag env) (ValueOf (DPtr (Some (DStruct fs))))
              = Some w
          \<and> result w = Success \<longrightarrow>
            after w = DPtr (Some (DStruct (map (\<lambda>(f, d). (f, snd (handleConfigTag env
                (Value_Field (Elem (ValueOf (DPtr (Some (DStruct fs))))) f d) f))) fs))))"
proof -
  have 1: "handleConfigTag env value field = (Success, DString envvar)"
    if "CanSet value \<and> Kind value = String"
    using that assms
    by (simp add: handleConfigTag_def setValue_def SetString_def mustBeAssignable_def CanSet_def)
  have 2: "handleConfigTag env value field = (Success, DInt k)"
    if "CanSet value \<and> Kind value = Int_kind \<and> Atoi envvar = Inr k"
    using that assms
    by (simp add: handleConfigTag_def setValue_def SetInt_def mustBeAssignable_def CanSet_def)
  have 3: "after w = DPtr (Some (DStruct (map (\<lambda>(f, d). (f, snd (handleConfigTag env
                (Value_Field (Elem (ValueOf (DPtr (Some (DStruct fs))))) f d) f))) fs)))"
    if flat: "\<forall>p \<in> set fs. depth (snd p) = 0"
      and run: "handleValue (Suc (Suc (Suc n))) (handleConfigTag env)
          (ValueOf (DPtr (Some (DStruct fs)))) = Some w"
      and ok: "result w = Success"
  proof -
    let ?val = "\<lparr>data = DStruct fs, flagAddr = True, flagStickyRO = False, flagEmbedRO = False\<rparr>"
    let ?h = "handleConfigTag env"
    from run obtain ws where ws: "handleStruct_loop (handleValue (Suc n) ?h) ?h ?val fs = Some ws"
      "result w = result ws" "after w = DPtr (Some (DStruct (after ws)))"
      by (auto simp: ValueOf_def Kind_def Elem_def handleStruct_def)
    have hv: "\<forall>v. depth (data v) = 0 \<longrightarrow>
        handleValue (Suc n) ?h v = Some \<lparr>result = Success, calls = [], after = data v\<rparr>"
      using depth_0_walk by blast
    have th: "\<forall>v f. depth (snd (?h v f)) \<le> depth (data v)" by (simp add: handleConfigTag_depth)
    from handleStruct_loop_flat[OF hv th flat ws(1)] ok ws(2)
    have "after ws = map (\<lambda>(f, d). (f, snd (?h (Value_Field ?val f d) f))) fs" by simp
    with ws(3) show ?thesis by (simp add: Value_Field_def Elem_def ValueOf_def)
  qed
  from 1 2 3 Atoi_5 show ?thesis by blast
qed

text \<open>The run of the article: \<^verbatim>\<open>&cfg\<close> with both variables set.\<close>

theorem config_handler_assigns_witness:
  "Lookup (Tag HttpMaxRetries) ''conf'' = Some ''HTTP_MAX_RETRIES''
   \<and> env_run ''HTTP_MAX_RETRIES'' = Some ''5''
   \<and> handleConfigTag env_run \<lparr>data = DInt 0, flagAddr = True, flagStickyRO = False, flagEmbedRO = False\<rparr> HttpMaxRetries
       = (Success, DInt 5)
   \<and> handleConfigTag env_run \<lparr>data = DString [], flagAddr = True, flagStickyRO = False, flagEmbedRO = False\<rparr>
        ElasticsearchHost = (Success, DString ''http://localhost:9200'')
   \<and> handleValue 3 (handleConfigTag env_run) (ValueOf (DPtr (Some (Config 0 [])))) = Some
       \<lparr>result = Success,
        calls = [(\<lparr>data = DInt 0, flagAddr = True, flagStickyRO = False, flagEmbedRO = False\<rparr>, HttpMaxRetries),
                 (\<lparr>data = DString [], flagAddr = True, flagStickyRO = False, flagEmbedRO = False\<rparr>, ElasticsearchHost)],
        after = DPtr (Some (Config 5 ''http://localhost:9200''))\<rparr>"
proof -
  let ?i = "\<lparr>data = DInt 0, flagAddr = True, flagStickyRO = False, flagEmbedRO = False\<rparr>"
  let ?s = "\<lparr>data = DString [], flagAddr = True, flagStickyRO = False, flagEmbedRO = False\<rparr>"
  let ?w = "\<lparr>result = Success, calls = [(?i, HttpMaxRetries), (?s, ElasticsearchHost)],
        after = DPtr (Some (Config 5 ''http://localhost:9200''))\<rparr>"
  let ?fs = "[(HttpMaxRetries, DInt 0), (ElasticsearchHost, DString [])]"
  have t1: "Lookup (Tag HttpMaxRetries) ''conf'' = Some ''HTTP_MAX_RETRIES''"
    by (simp add: Lookup_def HttpMaxRetries_def)
  have e1: "env_run ''HTTP_MAX_RETRIES'' = Some ''5''" by (simp add: env_run_def)
  have t2: "Lookup (Tag ElasticsearchHost) ''conf'' = Some ''ELASTICSEARCH_HOST''"
    by (simp add: Lookup_def ElasticsearchHost_def)
  have e2: "env_run ''ELASTICSEARCH_HOST'' = Some ''http://localhost:9200''"
    by (simp add: env_run_def)
  have run: "handleValue (Suc (Suc (Suc 0))) (handleConfigTag env_run)
      (ValueOf (DPtr (Some (DStruct ?fs)))) = Some ?w"
    by code_simp
  have a: "handleConfigTag env_run ?i HttpMaxRetries = (Success, DInt 5)"
    using config_handler_assigns[of HttpMaxRetries "''HTTP_MAX_RETRIES''" env_run "''5''"
        "\<lparr>data = DInt 0, flagAddr = True, flagStickyRO = False, flagEmbedRO = False\<rparr>" 5, OF t1 e1]
    by (simp add: CanSet_def flagRO_def Kind_def)
  have b: "handleConfigTag env_run ?s ElasticsearchHost = (Success, DString ''http://localhost:9200'')"
    using config_handler_assigns[of ElasticsearchHost "''ELASTICSEARCH_HOST''" env_run
        "''http://localhost:9200''" "\<lparr>data = DString [], flagAddr = True, flagStickyRO = False, flagEmbedRO = False\<rparr>", OF t2 e2]
    by (simp add: CanSet_def flagRO_def Kind_def)
  have c: "after ?w = DPtr (Some (DStruct (map (\<lambda>(f, d). (f, snd (handleConfigTag env_run
                (Value_Field (Elem (ValueOf (DPtr (Some (DStruct ?fs))))) f d) f))) ?fs)))"
    using config_handler_assigns[of HttpMaxRetries "''HTTP_MAX_RETRIES''" env_run "''5''" _ _
        "[(HttpMaxRetries, DInt 0), (ElasticsearchHost, DString [])]" 0
        "\<lparr>result = Success,
        calls = [(\<lparr>data = DInt 0, flagAddr = True, flagStickyRO = False, flagEmbedRO = False\<rparr>, HttpMaxRetries),
                 (\<lparr>data = DString [], flagAddr = True, flagStickyRO = False, flagEmbedRO = False\<rparr>, ElasticsearchHost)],
        after = DPtr (Some (Config 5 ''http://localhost:9200''))\<rparr>", OF t1 e1] run
    by simp
  from t1 e1 a b run show ?thesis by (simp add: Config_def numeral_3_eq_3)
qed

text \<open>
  C6 as stated fails on an unexported field: behind a pointer, tagged, of kind
  \<^verbatim>\<open>String\<close>, its variable set, and the handler panics in \<^verbatim>\<open>SetString\<close> without
  assigning.
\<close>

theorem unexported_field_is_not_assigned:
  "Lookup (Tag host) ''conf'' = Some ''ELASTICSEARCH_HOST''
   \<and> env_run ''ELASTICSEARCH_HOST'' = Some ''http://localhost:9200''
   \<and> handleValue 3 (handleConfigTag env_run) (ValueOf (DPtr (Some (DStruct [(host, DString [])]))))
     = Some \<lparr>result = Panic ''reflect: reflect.Value.SetString using value obtained using unexported field'',
            calls = [(\<lparr>data = DString [], flagAddr = True, flagStickyRO = True, flagEmbedRO = False\<rparr>, host)],
            after = DPtr (Some (DStruct [(host, DString [])]))\<rparr>"
  by code_simp


section \<open>Which values the callback can set\<close>

lemma handleStruct_loop_by_value:
  assumes hv: "\<forall>v w. \<not> flagAddr v \<and> by_value (data v) \<and> hv v = Some w \<longrightarrow> unaddressable w"
    and th: "\<forall>x f. by_value (data x) \<longrightarrow> by_value (snd (th x f))"
    and val: "\<not> flagAddr val"
  shows "list_all (\<lambda>p. by_value (snd p)) fs \<Longrightarrow> handleStruct_loop hv th val fs = Some ws
    \<Longrightarrow> unaddressable ws"
proof (induction fs arbitrary: ws)
  case Nil
  then show ?case by (auto simp: unaddressable_def)
next
  case (Cons p fs)
  obtain f d where p: "p = (f, d)" by (cases p)
  let ?fv = "Value_Field val f d"
  let ?fv' = "?fv\<lparr>data := snd (th ?fv f)\<rparr>"
  have fv: "\<not> flagAddr ?fv" using val by (simp add: Value_Field_def)
  have "by_value (data ?fv)" using Cons.prems(1) by (simp add: p Value_Field_def)
  then have fv': "\<not> flagAddr ?fv' \<and> by_value (data ?fv')"
    using th fv by (simp add: Value_Field_def)
  show ?case
  proof (cases "fst (th ?fv f) = Success")
    case False
    with Cons.prems(2) fv show ?thesis
      by (auto simp: p Let_def unaddressable_def)
  next
    case ok: True
    then obtain w where w: "hv ?fv' = Some w"
      using Cons.prems(2) by (auto simp: p Let_def split: option.splits)
    have uw: "unaddressable w" using hv fv' w by blast
    show ?thesis
    proof (cases "result w = Success")
      case False
      with Cons.prems(2) ok w have "calls ws = (?fv, f) # calls w"
        by (auto simp: p Let_def)
      with uw fv show ?thesis by (simp add: unaddressable_def)
    next
      case True
      then obtain ws' where ws': "handleStruct_loop hv th val fs = Some ws'"
        and c: "calls ws = (?fv, f) # calls w @ calls ws'"
        using Cons.prems(2) ok w by (auto simp: p Let_def split: option.splits)
      have "unaddressable ws'" using Cons.IH[OF _ ws'] Cons.prems(1) by simp
      with uw fv c show ?thesis by (simp add: unaddressable_def)
    qed
  qed
qed

lemma handleArray_loop_by_value:
  assumes hv: "\<forall>v w. \<not> flagAddr v \<and> by_value (data v) \<and> hv v = Some w \<longrightarrow> unaddressable w"
    and val: "\<not> flagAddr val" "Kind val \<noteq> Slice"
  shows "list_all by_value xs \<Longrightarrow> handleArray_loop hv val xs = Some ws \<Longrightarrow> unaddressable ws"
proof (induction xs arbitrary: ws)
  case Nil
  then show ?case by (auto simp: unaddressable_def)
next
  case (Cons d xs)
  then obtain w where w: "hv (Index val d) = Some w"
    by (auto split: option.splits)
  have "\<not> flagAddr (Index val d) \<and> by_value (data (Index val d))"
    using val Cons.prems(1) by (simp add: Index_def)
  then have uw: "unaddressable w" using hv w by blast
  show ?case
  proof (cases "result w = Success")
    case False
    with Cons.prems(2) w have "calls ws = calls w" by auto
    with uw show ?thesis by (simp add: unaddressable_def)
  next
    case True
    then obtain ws' where ws': "handleArray_loop hv val xs = Some ws'"
      and c: "calls ws = calls w @ calls ws'"
      using Cons.prems(2) w by (auto split: option.splits)
    have "unaddressable ws'" using Cons.IH[OF _ ws'] Cons.prems(1) by simp
    with uw c show ?thesis by (simp add: unaddressable_def)
  qed
qed

lemma handleMap_loop_by_value:
  assumes hv: "\<forall>v w. \<not> flagAddr v \<and> by_value (data v) \<and> hv v = Some w \<longrightarrow> unaddressable w"
  shows "list_all (\<lambda>p. by_value (snd p)) kvs \<Longrightarrow> handleMap_loop hv val kvs = Some ws
    \<Longrightarrow> unaddressable ws"
proof (induction kvs arbitrary: ws)
  case Nil
  then show ?case by (auto simp: unaddressable_def)
next
  case (Cons p kvs)
  obtain k d where p: "p = (k, d)" by (cases p)
  from Cons.prems(2) obtain w where w: "hv (MapIndex val d) = Some w"
    by (auto simp: p split: option.splits)
  have "\<not> flagAddr (MapIndex val d) \<and> by_value (data (MapIndex val d))"
    using Cons.prems(1) by (simp add: MapIndex_def p)
  then have uw: "unaddressable w" using hv w by blast
  show ?case
  proof (cases "result w = Success")
    case False
    with Cons.prems(2) w have "calls ws = calls w" by (auto simp: p)
    with uw show ?thesis by (simp add: unaddressable_def)
  next
    case True
    then obtain ws' where ws': "handleMap_loop hv val kvs = Some ws'"
      and c: "calls ws = calls w @ calls ws'"
      using Cons.prems(2) w by (auto simp: p split: option.splits)
    have "unaddressable ws'" using Cons.IH[OF _ ws'] Cons.prems(1) by simp
    with uw c show ?thesis by (simp add: unaddressable_def)
  qed
qed

lemma handleValue_by_value:
  assumes th: "\<forall>x f. by_value (data x) \<longrightarrow> by_value (snd (th x f))"
  shows "\<not> flagAddr val \<Longrightarrow> by_value (data val) \<Longrightarrow> handleValue n th val = Some w
    \<Longrightarrow> unaddressable w"
proof (induction n arbitrary: val w)
  case 0
  then show ?case by simp
next
  case (Suc n)
  have hv: "\<forall>v w. \<not> flagAddr v \<and> by_value (data v) \<and> handleValue n th v = Some w
      \<longrightarrow> unaddressable w"
    using Suc.IH by blast
  show ?case
  proof (cases "data val")
    case (DStruct fs)
    with Suc.prems(3) obtain ws where ws: "handleStruct_loop (handleValue n th) th val fs = Some ws"
      "calls w = calls ws"
      by (auto simp: Kind_def handleStruct_def)
    have "list_all (\<lambda>p. by_value (snd p)) fs"
      using Suc.prems(2) DStruct by (simp add: case_prod_unfold)
    from handleStruct_loop_by_value[OF hv th Suc.prems(1) this ws(1)] ws(2)
    show ?thesis by (simp add: unaddressable_def)
  next
    case (DArray xs)
    with Suc.prems(3) obtain ws where ws: "handleArray_loop (handleValue n th) val xs = Some ws"
      "calls w = calls ws"
      by (auto simp: Kind_def handleArray_def)
    have k: "Kind val \<noteq> Slice" using DArray by (simp add: Kind_def)
    have "list_all by_value xs" using Suc.prems(2) DArray by simp
    from handleArray_loop_by_value[OF hv Suc.prems(1) k this ws(1)] ws(2)
    show ?thesis by (simp add: unaddressable_def)
  next
    case (DMap kvs)
    with Suc.prems(3) obtain ws where ws: "handleMap_loop (handleValue n th) val kvs = Some ws"
      "calls w = calls ws"
      by (auto simp: Kind_def handleMap_def)
    have "list_all (\<lambda>p. by_value (snd p)) kvs"
      using Suc.prems(2) DMap by (simp add: case_prod_unfold)
    from handleMap_loop_by_value[OF hv this ws(1)] ws(2)
    show ?thesis by (simp add: unaddressable_def)
  qed (use Suc.prems in \<open>auto simp: Kind_def unaddressable_def\<close>)
qed

lemma handleConfigTag_by_value:
  "by_value (data x) \<Longrightarrow> by_value (snd (handleConfigTag env x f))"
  by (cases "data x")
     (auto simp: handleConfigTag_def setValue_def SetString_def SetInt_def Kind_def
           split: option.splits sum.splits)

text \<open>
  C9, as amended. When \<^verbatim>\<open>Handle\<close> is given a value that holds everything by value (no
  pointer and no slice in it), and the callback keeps it so, as both handlers of the
  program do, every value the callback receives is unaddressable; under the handlers of
  the program the walk of such a value returns, under every bound above its depth. On an
  unaddressable value the configuration handler panics, in \<^verbatim>\<open>SetString\<close> or
  \<^verbatim>\<open>SetInt\<close>, when the variable of the tag is set and the kind is \<^verbatim>\<open>String\<close>, or
  \<^verbatim>\<open>Int\<close> with content that parses; the message of the panic is the one for a value
  obtained through an unexported field when the value is one, and else the one for an
  unaddressable value. An element of a slice and the pointee of a pointer are
  addressable, and so are their fields.
\<close>

theorem by_value_root_is_unaddressable:
  "(by_value v \<and> (\<forall>x f. by_value (data x) \<longrightarrow> by_value (snd (th x f)))
      \<and> Handle n th v = Some w \<longrightarrow> (\<forall>c \<in> set (calls w). \<not> flagAddr (fst c)))
   \<and> (by_value v \<and> depth v < n \<longrightarrow>
        (\<exists>r. Handle n (handleConfigTag env) v = Some r
           \<and> (\<forall>c \<in> set (calls r). \<not> flagAddr (fst c))))
   \<and> (by_value v \<and> depth v < n \<longrightarrow>
        (\<exists>r. Handle n (handleValidateTag Compile Sprint) v = Some r
           \<and> (\<forall>c \<in> set (calls r). \<not> flagAddr (fst c))))
   \<and> (\<not> flagAddr val \<and> Lookup (Tag field) ''conf'' = Some tag \<and> env tag = Some envvar
        \<and> Kind val = String \<longrightarrow>
        handleConfigTag env val field
          = (Panic (if flagRO val
                    then ''reflect: reflect.Value.SetString using value obtained using unexported field''
                    else ''reflect: reflect.Value.SetString using unaddressable value''),
             data val))
   \<and> (\<not> flagAddr val \<and> Lookup (Tag field) ''conf'' = Some tag \<and> env tag = Some envvar
        \<and> Kind val = Int_kind \<and> Atoi envvar = Inr k \<longrightarrow>
        handleConfigTag env val field
          = (Panic (if flagRO val
                    then ''reflect: reflect.Value.SetInt using value obtained using unexported field''
                    else ''reflect: reflect.Value.SetInt using unaddressable value''),
             data val))
   \<and> (Kind val = Slice \<longrightarrow> flagAddr (Index val e) \<and> flagAddr (Value_Field (Index val e) f d))
   \<and> (data val = DPtr (Some e) \<longrightarrow> flagAddr (Elem val) \<and> flagAddr (Value_Field (Elem val) f d))"
proof -
  have 1: "\<forall>c \<in> set (calls w). \<not> flagAddr (fst c)"
    if "by_value v \<and> (\<forall>x f. by_value (data x) \<longrightarrow> by_value (snd (th x f)))
      \<and> Handle n th v = Some w"
  proof -
    from that have "unaddressable w"
      using handleValue_by_value[of th "ValueOf v" n w] by (simp add: Handle_def ValueOf_def)
    then show ?thesis by (simp add: unaddressable_def list_all_iff)
  qed
  have total: "\<exists>r. Handle n h v = Some r \<and> (\<forall>c \<in> set (calls r). \<not> flagAddr (fst c))"
    if bv: "by_value v \<and> depth v < n"
      and d: "\<forall>x f. depth (snd (h x f)) \<le> depth (data x)"
      and k: "\<forall>x f. by_value (data x) \<longrightarrow> by_value (snd (h x f))"
    for h
  proof -
    have "handleValue n h (ValueOf v) \<noteq> None"
      using bv by (intro handleValue_returns[OF d]) (simp add: ValueOf_def)
    then obtain r where r: "Handle n h v = Some r" by (auto simp: Handle_def)
    from handleValue_by_value[OF k, of "ValueOf v" n r] bv r have "unaddressable r"
      by (simp add: Handle_def ValueOf_def)
    with r show ?thesis by (simp add: unaddressable_def list_all_iff)
  qed
  have 2: "\<exists>r. Handle n (handleConfigTag env) v = Some r
           \<and> (\<forall>c \<in> set (calls r). \<not> flagAddr (fst c))"
    if "by_value v \<and> depth v < n"
    using that by (intro total) (simp_all add: handleConfigTag_depth handleConfigTag_by_value)
  have 3: "\<exists>r. Handle n (handleValidateTag Compile Sprint) v = Some r
           \<and> (\<forall>c \<in> set (calls r). \<not> flagAddr (fst c))"
    if "by_value v \<and> depth v < n"
    using that by (intro total) (simp_all add: handleValidateTag_leaves_alone)
  have 4: "handleConfigTag env val field
          = (Panic (if flagRO val
                    then ''reflect: reflect.Value.SetString using value obtained using unexported field''
                    else ''reflect: reflect.Value.SetString using unaddressable value''),
             data val)"
    if "\<not> flagAddr val \<and> Lookup (Tag field) ''conf'' = Some tag \<and> env tag = Some envvar
        \<and> Kind val = String"
    using that
    by (simp add: handleConfigTag_def setValue_def SetString_def mustBeAssignable_def)
  have 5: "handleConfigTag env val field
          = (Panic (if flagRO val
                    then ''reflect: reflect.Value.SetInt using value obtained using unexported field''
                    else ''reflect: reflect.Value.SetInt using unaddressable value''),
             data val)"
    if "\<not> flagAddr val \<and> Lookup (Tag field) ''conf'' = Some tag \<and> env tag = Some envvar
        \<and> Kind val = Int_kind \<and> Atoi envvar = Inr k"
    using that
    by (simp add: handleConfigTag_def setValue_def SetInt_def mustBeAssignable_def)
  have 6: "flagAddr (Index val e) \<and> flagAddr (Value_Field (Index val e) f d)"
    if "Kind val = Slice"
    using that by (simp add: Index_def Value_Field_def)
  have 7: "flagAddr (Elem val) \<and> flagAddr (Value_Field (Elem val) f d)"
    if "data val = DPtr (Some e)"
    using that by (simp add: Elem_def Value_Field_def)
  from 1 2 3 4 5 6 7 show ?thesis by blast
qed


text \<open>
  \<^verbatim>\<open>Handle(cfg)\<close> in place of \<^verbatim>\<open>Handle(&cfg)\<close>, in the environment of the article;
  the handler on an unexported field held by value; the validation handler over a
  \<^verbatim>\<open>Name\<close> passed by value; a field of an element of a slice and of a pointee.
\<close>

theorem by_value_root_is_unaddressable_witness:
  "by_value (Config 0 [])
   \<and> Handle 2 (handleConfigTag env_run) (Config 0 []) = Some
       \<lparr>result = Panic ''reflect: reflect.Value.SetInt using unaddressable value'',
        calls = [(\<lparr>data = DInt 0, flagAddr = False, flagStickyRO = False, flagEmbedRO = False\<rparr>, HttpMaxRetries)],
        after = Config 0 []\<rparr>
   \<and> handleConfigTag env_run \<lparr>data = DString [], flagAddr = False, flagStickyRO = False, flagEmbedRO = False\<rparr>
        ElasticsearchHost
       = (Panic ''reflect: reflect.Value.SetString using unaddressable value'', DString [])
   \<and> handleConfigTag env_run \<lparr>data = DString [], flagAddr = False, flagStickyRO = True, flagEmbedRO = False\<rparr>
        host
       = (Panic ''reflect: reflect.Value.SetString using value obtained using unexported field'',
          DString [])
   \<and> handleConfigTag env_run \<lparr>data = DInt 0, flagAddr = False, flagStickyRO = False, flagEmbedRO = False\<rparr>
        HttpMaxRetries
       = (Panic ''reflect: reflect.Value.SetInt using unaddressable value'', DInt 0)
   \<and> map_option (\<lambda>r. (result r, map (\<lambda>c. (flagAddr (fst c), snd c)) (calls r)))
        (Handle 2 (handleValidateTag Compile_article Sprint_none) (Name_struct ''Iaf'' ''Nofrens''))
       = Some (Success, [(False, FirstName), (False, LastName)])
   \<and> flagAddr (Value_Field (Index (ValueOf (DSlice [Config 0 []])) (Config 0 [])) HttpMaxRetries (DInt 0))
   \<and> flagAddr (Value_Field (Elem (ValueOf (DPtr (Some (Config 0 []))))) HttpMaxRetries (DInt 0))"
proof -
  let ?w = "\<lparr>result = Panic ''reflect: reflect.Value.SetInt using unaddressable value'',
        calls = [(\<lparr>data = DInt 0, flagAddr = False, flagStickyRO = False, flagEmbedRO = False\<rparr>, HttpMaxRetries)],
        after = Config 0 []\<rparr>"
  let ?hv = "handleValidateTag Compile_article Sprint_none"
  let ?n = "Name_struct ''Iaf'' ''Nofrens''"
  have bv: "by_value (Config 0 [])" by (simp add: Config_def)
  have h: "\<forall>x f. by_value (data x) \<longrightarrow> by_value (snd (handleConfigTag env_run x f))"
    by (simp add: handleConfigTag_by_value)
  have dc: "depth (Config 0 []) < 2" by (simp add: Config_def)
  have t1: "Lookup (Tag HttpMaxRetries) ''conf'' = Some ''HTTP_MAX_RETRIES''
      \<and> env_run ''HTTP_MAX_RETRIES'' = Some ''5'' \<and> Atoi ''5'' = Inr 5"
    by (simp add: Lookup_def HttpMaxRetries_def env_run_def Atoi_5)
  have t2: "Lookup (Tag ElasticsearchHost) ''conf'' = Some ''ELASTICSEARCH_HOST''
      \<and> env_run ''ELASTICSEARCH_HOST'' = Some ''http://localhost:9200''"
    by (simp add: Lookup_def ElasticsearchHost_def env_run_def)
  have t3: "Lookup (Tag host) ''conf'' = Some ''ELASTICSEARCH_HOST''
      \<and> env_run ''ELASTICSEARCH_HOST'' = Some ''http://localhost:9200''"
    by (simp add: Lookup_def host_def env_run_def)
  note u1 = by_value_root_is_unaddressable[where v = "Config 0 []" and n = 2 and env = env_run]
  from u1[THEN conjunct2, THEN conjunct1] bv dc
  obtain r where run: "Handle 2 (handleConfigTag env_run) (Config 0 []) = Some r"
    and ua: "\<forall>c \<in> set (calls r). \<not> flagAddr (fst c)"
    by blast
  have "Handle 2 (handleConfigTag env_run) (Config 0 []) = Some ?w" by code_simp
  with run have r: "r = ?w" by simp
  note u2 = by_value_root_is_unaddressable[where v = "Config 0 []"
      and th = "handleConfigTag env_run" and n = 2 and w = ?w]
  have a: "\<forall>c \<in> set (calls ?w). \<not> flagAddr (fst c)"
    using u2[THEN conjunct1] bv h run r by blast
  note u3 = by_value_root_is_unaddressable[where
      val = "\<lparr>data = DString [], flagAddr = False, flagStickyRO = False, flagEmbedRO = False\<rparr>"
      and field = ElasticsearchHost and tag = "''ELASTICSEARCH_HOST''" and env = env_run
      and envvar = "''http://localhost:9200''"]
  have b: "handleConfigTag env_run \<lparr>data = DString [], flagAddr = False, flagStickyRO = False, flagEmbedRO = False\<rparr>
        ElasticsearchHost
       = (Panic ''reflect: reflect.Value.SetString using unaddressable value'', DString [])"
    using u3[THEN conjunct2, THEN conjunct2, THEN conjunct2, THEN conjunct1] t2
    by (simp add: Kind_def flagRO_def)
  note u4 = by_value_root_is_unaddressable[where
      val = "\<lparr>data = DString [], flagAddr = False, flagStickyRO = True, flagEmbedRO = False\<rparr>"
      and field = host and tag = "''ELASTICSEARCH_HOST''" and env = env_run
      and envvar = "''http://localhost:9200''"]
  have c: "handleConfigTag env_run \<lparr>data = DString [], flagAddr = False, flagStickyRO = True, flagEmbedRO = False\<rparr>
        host
       = (Panic ''reflect: reflect.Value.SetString using value obtained using unexported field'',
          DString [])"
    using u4[THEN conjunct2, THEN conjunct2, THEN conjunct2, THEN conjunct1] t3
    by (simp add: Kind_def flagRO_def)
  note u5 = by_value_root_is_unaddressable[where
      val = "\<lparr>data = DInt 0, flagAddr = False, flagStickyRO = False, flagEmbedRO = False\<rparr>"
      and field = HttpMaxRetries and tag = "''HTTP_MAX_RETRIES''" and env = env_run
      and envvar = "''5''" and k = 5]
  have d: "handleConfigTag env_run \<lparr>data = DInt 0, flagAddr = False, flagStickyRO = False, flagEmbedRO = False\<rparr>
        HttpMaxRetries
       = (Panic ''reflect: reflect.Value.SetInt using unaddressable value'', DInt 0)"
    using u5[THEN conjunct2, THEN conjunct2, THEN conjunct2, THEN conjunct2, THEN conjunct1] t1
    by (simp add: Kind_def flagRO_def)
  have bn: "by_value ?n" "depth ?n < 2" by (simp_all add: Name_struct_def)
  note u6 = by_value_root_is_unaddressable[where v = ?n and n = 2 and Compile = Compile_article
      and Sprint = Sprint_none]
  from u6[THEN conjunct2, THEN conjunct2, THEN conjunct1] bn
  obtain rn where runn: "Handle 2 ?hv ?n = Some rn"
    and uan: "\<forall>c \<in> set (calls rn). \<not> flagAddr (fst c)"
    by blast
  have "map_option (\<lambda>r. (result r, map snd (calls r))) (Handle 2 ?hv ?n)
      = Some (Success, [FirstName, LastName])"
    by code_simp
  with runn have rn: "result rn = Success" "map snd (calls rn) = [FirstName, LastName]"
    by simp_all
  from rn(2) obtain c1 c2 where cs: "calls rn = [c1, c2]" "snd c1 = FirstName" "snd c2 = LastName"
    by (auto simp: map_eq_Cons_conv)
  with uan have "\<not> flagAddr (fst c1)" "\<not> flagAddr (fst c2)" by simp_all
  with cs rn(1) runn have e: "map_option (\<lambda>r. (result r, map (\<lambda>c. (flagAddr (fst c), snd c)) (calls r)))
        (Handle 2 ?hv ?n) = Some (Success, [(False, FirstName), (False, LastName)])"
    by simp
  note u7 = by_value_root_is_unaddressable[where val = "ValueOf (DSlice [Config 0 []])"
      and e = "Config 0 []" and f = HttpMaxRetries and d = "DInt 0"]
  have f: "flagAddr (Value_Field (Index (ValueOf (DSlice [Config 0 []])) (Config 0 [])) HttpMaxRetries (DInt 0))"
    using u7[THEN conjunct2, THEN conjunct2, THEN conjunct2, THEN conjunct2, THEN conjunct2,
             THEN conjunct1]
    by (simp add: Kind_def ValueOf_def)
  note u8 = by_value_root_is_unaddressable[where val = "ValueOf (DPtr (Some (Config 0 [])))"
      and e = "Config 0 []" and f = HttpMaxRetries and d = "DInt 0"]
  have g: "flagAddr (Value_Field (Elem (ValueOf (DPtr (Some (Config 0 []))))) HttpMaxRetries (DInt 0))"
    using u8[THEN conjunct2, THEN conjunct2, THEN conjunct2, THEN conjunct2, THEN conjunct2,
             THEN conjunct2]
    by (simp add: ValueOf_def)
  have chk: "map_option (\<lambda>r. map (\<lambda>c. flagAddr (fst c)) (calls r)) (Handle 2 ?hv ?n)
      = Some [False, False]"
    by code_simp
  from chk bv run r b c d e f g show ?thesis by simp
qed

text \<open>
  C9 as stated fails: under a root passed by value, the elements of a slice are
  addressable, the handler receives addressable fields and sets them without a panic.
\<close>

theorem slice_elements_are_addressable:
  "Handle 4 (handleConfigTag env_run) Fleet = Some
     \<lparr>result = Success,
      calls = [(\<lparr>data = DSlice [Config 0 []], flagAddr = False, flagStickyRO = False, flagEmbedRO = False\<rparr>, Configs),
               (\<lparr>data = DInt 0, flagAddr = True, flagStickyRO = False, flagEmbedRO = False\<rparr>, HttpMaxRetries),
               (\<lparr>data = DString [], flagAddr = True, flagStickyRO = False, flagEmbedRO = False\<rparr>, ElasticsearchHost)],
      after = DStruct [(Configs, DSlice [Config 5 ''http://localhost:9200''])]\<rparr>"
  by code_simp


section \<open>The validation handler\<close>

lemma digit_char: "0 \<le> k \<Longrightarrow> k < 10 \<Longrightarrow>
    isDigit (''0123456789'' ! nat k) \<and> (of_char (''0123456789'' ! nat k) :: int) = 48 + k"
proof -
  assume "0 \<le> k" "k < 10"
  then have "k = 0 \<or> k = 1 \<or> k = 2 \<or> k = 3 \<or> k = 4 \<or> k = 5 \<or> k = 6 \<or> k = 7 \<or> k = 8 \<or> k = 9"
    by arith
  then show ?thesis by (auto simp: isDigit_def)
qed

lemma FormatUint_decimal:
  "0 \<le> n \<Longrightarrow> list_all isDigit (FormatUint n) \<and> decimal (FormatUint n) = n"
proof (induction n rule: FormatUint.induct)
  case (1 n)
  show ?case
  proof (cases "n < 10")
    case True
    with "1.prems" digit_char[of n] show ?thesis
      by (subst (1 2) FormatUint.simps) (simp add: decimal_def)
  next
    case False
    then have ih: "list_all isDigit (FormatUint (n div 10))" "decimal (FormatUint (n div 10)) = n div 10"
      using "1.IH" "1.prems" by simp_all
    have d: "isDigit (''0123456789'' ! nat (n mod 10))"
      "(of_char (''0123456789'' ! nat (n mod 10)) :: int) = 48 + n mod 10"
      using digit_char[of "n mod 10"] by simp_all
    have "FormatUint n = FormatUint (n div 10) @ [''0123456789'' ! nat (n mod 10)]"
      using False by (subst FormatUint.simps) simp
    with ih d show ?thesis by (simp add: decimal_def)
  qed
qed

lemma FormatInt_1990: "FormatInt 1990 = ''1990''"
  by (simp add: FormatInt_def)

lemma FormatInt_195: "FormatInt 195 = ''195''"
  by (simp add: FormatInt_def)

text \<open>
  C4, as amended. The validation handler returns \<^verbatim>\<open>nil\<close> on a field without a
  \<^verbatim>\<open>validate\<close> tag. On a field with a tag that compiles: for a value that was not
  reached through an unexported field, it returns \<^verbatim>\<open>nil\<close> exactly when the compiled
  pattern matches what \<^verbatim>\<open>%v\<close> prints for the value, and else the error that names the
  type, the field, the printed value and the pattern; for a value that was reached through
  an unexported field it panics in \<^verbatim>\<open>value.Interface()\<close>, as it does for the zero
  Value. What \<^verbatim>\<open>%v\<close> prints for a value of kind \<^verbatim>\<open>Int\<close> is what the \<^verbatim>\<open>Format\<close>,
  \<^verbatim>\<open>Error\<close> or \<^verbatim>\<open>String\<close> method of its type returns, when the type has one, and else
  the value in decimal: the digits of its magnitude, after a minus sign when it is
  negative; 1990 prints as \<^verbatim>\<open>1990\<close>, 195 as \<^verbatim>\<open>195\<close>.
\<close>

theorem validate_handler_matches:
  "(Lookup (Tag field) ''validate'' = None \<longrightarrow>
      handleValidateTag Compile Sprint val field = (Success, data val))
   \<and> (Lookup (Tag field) ''validate'' = Some tag \<and> Compile tag = Inr m
        \<and> \<not> flagRO val \<and> Kind val \<noteq> Invalid \<longrightarrow>
        (fst (handleValidateTag Compile Sprint val field) = Success
           \<longleftrightarrow> m (Sprintf_v Sprint (Type field) (data val)))
      \<and> (\<not> m (Sprintf_v Sprint (Type field) (data val)) \<longrightarrow>
           handleValidateTag Compile Sprint val field
             = (Failure (errorString (''invalid field ('' @ Type field @ ''::'' @ Name field
                  @ '') '' @ Sprintf_v Sprint (Type field) (data val) @ '' != '' @ tag)),
                data val)))
   \<and> (Lookup (Tag field) ''validate'' = Some tag \<and> Compile tag = Inr m
        \<and> flagRO val \<and> Kind val \<noteq> Invalid \<longrightarrow>
        handleValidateTag Compile Sprint val field
          = (Panic ''reflect.Value.Interface: cannot return value obtained from unexported field or method'',
             data val))
   \<and> (Lookup (Tag field) ''validate'' = Some tag \<and> Compile tag = Inr m
        \<and> Kind val = Invalid \<longrightarrow>
        handleValidateTag Compile Sprint val field
          = (Panic ''reflect: call of reflect.Value.Interface on zero Value'', data val))
   \<and> (handleMethods Sprint ty (DInt n) = Some s \<longrightarrow> Sprintf_v Sprint ty (DInt n) = s)
   \<and> (handleMethods Sprint ty (DInt n) = None \<longrightarrow>
        Sprintf_v Sprint ty (DInt n)
          = (if n < 0 then CHR ''-'' # FormatUint (abs n) else FormatUint (abs n))
        \<and> list_all isDigit (FormatUint (abs n)) \<and> decimal (FormatUint (abs n)) = abs n)
   \<and> Sprintf_v Sprint_none ''int'' (DInt 1990) = ''1990''
   \<and> Sprintf_v Sprint_none ''int'' (DInt 195) = ''195''"
proof -
  have 1: "handleValidateTag Compile Sprint val field = (Success, data val)"
    if "Lookup (Tag field) ''validate'' = None"
    using that by (simp add: handleValidateTag_def)
  have 2: "(fst (handleValidateTag Compile Sprint val field) = Success
           \<longleftrightarrow> m (Sprintf_v Sprint (Type field) (data val)))
      \<and> (\<not> m (Sprintf_v Sprint (Type field) (data val)) \<longrightarrow>
           handleValidateTag Compile Sprint val field
             = (Failure (errorString (''invalid field ('' @ Type field @ ''::'' @ Name field
                  @ '') '' @ Sprintf_v Sprint (Type field) (data val) @ '' != '' @ tag)),
                data val))"
    if "Lookup (Tag field) ''validate'' = Some tag \<and> Compile tag = Inr m
        \<and> \<not> flagRO val \<and> Kind val \<noteq> Invalid"
    using that by (simp add: handleValidateTag_def valueToString_def)
  have 3: "handleValidateTag Compile Sprint val field
          = (Panic ''reflect.Value.Interface: cannot return value obtained from unexported field or method'',
             data val)"
    if "Lookup (Tag field) ''validate'' = Some tag \<and> Compile tag = Inr m
        \<and> flagRO val \<and> Kind val \<noteq> Invalid"
    using that by (simp add: handleValidateTag_def valueToString_def)
  have 4: "handleValidateTag Compile Sprint val field
          = (Panic ''reflect: call of reflect.Value.Interface on zero Value'', data val)"
    if "Lookup (Tag field) ''validate'' = Some tag \<and> Compile tag = Inr m \<and> Kind val = Invalid"
    using that by (simp add: handleValidateTag_def valueToString_def)
  have 5: "Sprintf_v Sprint ty (DInt n) = s" if "handleMethods Sprint ty (DInt n) = Some s"
    using that by (simp add: Sprintf_v_def)
  have 6: "Sprintf_v Sprint ty (DInt n)
          = (if n < 0 then CHR ''-'' # FormatUint (abs n) else FormatUint (abs n))
        \<and> list_all isDigit (FormatUint (abs n)) \<and> decimal (FormatUint (abs n)) = abs n"
    if "handleMethods Sprint ty (DInt n) = None"
    using that FormatUint_decimal[of "abs n"] by (simp add: Sprintf_v_def FormatInt_def)
  have 7: "Sprintf_v Sprint_none ''int'' (DInt 1990) = ''1990''
      \<and> Sprintf_v Sprint_none ''int'' (DInt 195) = ''195''"
    by (simp add: Sprintf_v_def Sprint_none_def FormatInt_1990 FormatInt_195)
  from 1 2 3 4 5 6 7 show ?thesis by blast
qed

text \<open>
  A field without the tag; \<^verbatim>\<open>BirthYear\<close> with 1990, which matches, and with 195, which
  does not; an unexported field and the zero Value; \<^verbatim>\<open>time.Month\<close> at 1, which prints
  through its \<^verbatim>\<open>String\<close> method; and the \<^verbatim>\<open>int\<close> -7.
\<close>

theorem validate_handler_matches_witness:
  "handleValidateTag Compile_article Sprint_none
      \<lparr>data = Name_struct ''Iaf'' ''Nofrens'', flagAddr = True, flagStickyRO = False, flagEmbedRO = False\<rparr> Name_field
     = (Success, Name_struct ''Iaf'' ''Nofrens'')
   \<and> handleValidateTag Compile_article Sprint_none
      \<lparr>data = DInt 1990, flagAddr = False, flagStickyRO = False, flagEmbedRO = False\<rparr> BirthYear = (Success, DInt 1990)
   \<and> handleValidateTag Compile_article Sprint_none
      \<lparr>data = DInt 195, flagAddr = False, flagStickyRO = False, flagEmbedRO = False\<rparr> BirthYear
     = (Failure (errorString (''invalid field (int::BirthYear) 195 != '' @ year_pattern)), DInt 195)
   \<and> mentions (errorString (''invalid field (int::BirthYear) 195 != '' @ year_pattern)) (Name BirthYear)
   \<and> mentions (errorString (''invalid field (int::BirthYear) 195 != '' @ year_pattern)) year_pattern
   \<and> handleValidateTag Compile_article Sprint_none
      \<lparr>data = DInt 1990, flagAddr = True, flagStickyRO = True, flagEmbedRO = False\<rparr> birthYear
     = (Panic ''reflect.Value.Interface: cannot return value obtained from unexported field or method'',
        DInt 1990)
   \<and> handleValidateTag Compile_article Sprint_none
      \<lparr>data = DInvalid, flagAddr = False, flagStickyRO = False, flagEmbedRO = False\<rparr> BirthYear
     = (Panic ''reflect: call of reflect.Value.Interface on zero Value'', DInvalid)
   \<and> handleValidateTag Compile_article Sprint_month
      \<lparr>data = DInt 1, flagAddr = False, flagStickyRO = False, flagEmbedRO = False\<rparr> Month
     = (Failure (errorString (''invalid field (time.Month::Month) January != '' @ year_pattern)), DInt 1)
   \<and> Sprintf_v Sprint_month ''time.Month'' (DInt 1) = ''January''
   \<and> Sprintf_v Sprint_none ''int'' (DInt (- 7)) = ''-7''"
proof -
  let ?h = "handleValidateTag Compile_article Sprint_none"
  have t0: "Lookup (Tag Name_field) ''validate'' = None" by (simp add: Lookup_def Name_field_def)
  have t: "Lookup (Tag BirthYear) ''validate'' = Some year_pattern \<and>
      Compile_article year_pattern = Inr (MatchString year_re)"
    by (simp add: Lookup_def BirthYear_def Compile_article_def)
  have t': "Lookup (Tag birthYear) ''validate'' = Some year_pattern \<and>
      Compile_article year_pattern = Inr (MatchString year_re)"
    by (simp add: Lookup_def birthYear_def Compile_article_def)
  have t'': "Lookup (Tag Month) ''validate'' = Some year_pattern \<and>
      Compile_article year_pattern = Inr (MatchString year_re)"
    by (simp add: Lookup_def Month_def Compile_article_def)
  have m1: "MatchString year_re ''1990''" by code_simp
  have m2: "\<not> MatchString year_re ''195''" by code_simp
  have m3: "\<not> MatchString year_re ''January''" by code_simp
  have j: "handleMethods Sprint_month ''time.Month'' (DInt 1) = Some ''January''"
    by (simp add: Sprint_month_def)
  have k: "handleMethods Sprint_none ''int'' (DInt (- 7)) = None"
    by (simp add: Sprint_none_def)
  have p: "Sprintf_v Sprint_none ''int'' (DInt 1990) = ''1990''
      \<and> Sprintf_v Sprint_none ''int'' (DInt 195) = ''195''"
    by (simp add: Sprintf_v_def Sprint_none_def FormatInt_1990 FormatInt_195)
  have a: "?h \<lparr>data = Name_struct ''Iaf'' ''Nofrens'', flagAddr = True, flagStickyRO = False, flagEmbedRO = False\<rparr> Name_field
     = (Success, Name_struct ''Iaf'' ''Nofrens'')"
    using validate_handler_matches[where field = Name_field and Compile = Compile_article
        and Sprint = Sprint_none
        and val = "\<lparr>data = Name_struct ''Iaf'' ''Nofrens'', flagAddr = True, flagStickyRO = False, flagEmbedRO = False\<rparr>"] t0
    by simp
  have b: "fst (?h \<lparr>data = DInt 1990, flagAddr = False, flagStickyRO = False, flagEmbedRO = False\<rparr> BirthYear) = Success"
    using validate_handler_matches[where field = BirthYear and Compile = Compile_article
        and Sprint = Sprint_none
        and val = "\<lparr>data = DInt 1990, flagAddr = False, flagStickyRO = False, flagEmbedRO = False\<rparr>"
        and tag = year_pattern and m = "MatchString year_re"] t m1 p
    by (simp add: Kind_def flagRO_def BirthYear_def)
  have b': "snd (?h \<lparr>data = DInt 1990, flagAddr = False, flagStickyRO = False, flagEmbedRO = False\<rparr> BirthYear) = DInt 1990"
    by (simp add: handleValidateTag_def split: option.splits sum.splits)
  have c: "?h \<lparr>data = DInt 195, flagAddr = False, flagStickyRO = False, flagEmbedRO = False\<rparr> BirthYear
     = (Failure (errorString (''invalid field (int::BirthYear) 195 != '' @ year_pattern)), DInt 195)"
    using validate_handler_matches[where field = BirthYear and Compile = Compile_article
        and Sprint = Sprint_none
        and val = "\<lparr>data = DInt 195, flagAddr = False, flagStickyRO = False, flagEmbedRO = False\<rparr>"
        and tag = year_pattern and m = "MatchString year_re"] t m2 p
    by (simp add: Kind_def flagRO_def BirthYear_def)
  have d: "mentions (errorString (''invalid field (int::BirthYear) 195 != '' @ year_pattern)) (Name BirthYear)
   \<and> mentions (errorString (''invalid field (int::BirthYear) 195 != '' @ year_pattern)) year_pattern"
    by code_simp
  have e: "?h \<lparr>data = DInt 1990, flagAddr = True, flagStickyRO = True, flagEmbedRO = False\<rparr> birthYear
     = (Panic ''reflect.Value.Interface: cannot return value obtained from unexported field or method'',
        DInt 1990)"
    using validate_handler_matches[where field = birthYear and Compile = Compile_article
        and Sprint = Sprint_none
        and val = "\<lparr>data = DInt 1990, flagAddr = True, flagStickyRO = True, flagEmbedRO = False\<rparr>"
        and tag = year_pattern and m = "MatchString year_re"] t'
    by (simp add: Kind_def flagRO_def)
  have f: "?h \<lparr>data = DInvalid, flagAddr = False, flagStickyRO = False, flagEmbedRO = False\<rparr> BirthYear
     = (Panic ''reflect: call of reflect.Value.Interface on zero Value'', DInvalid)"
    using validate_handler_matches[where field = BirthYear and Compile = Compile_article
        and Sprint = Sprint_none
        and val = "\<lparr>data = DInvalid, flagAddr = False, flagStickyRO = False, flagEmbedRO = False\<rparr>"
        and tag = year_pattern and m = "MatchString year_re"] t
    by (simp add: Kind_def)
  have g: "Sprintf_v Sprint_month ''time.Month'' (DInt 1) = ''January''"
    using validate_handler_matches[where Sprint = Sprint_month and ty = "''time.Month''"
        and n = 1 and s = "''January''"] j
    by simp
  have h: "handleValidateTag Compile_article Sprint_month
      \<lparr>data = DInt 1, flagAddr = False, flagStickyRO = False, flagEmbedRO = False\<rparr> Month
     = (Failure (errorString (''invalid field (time.Month::Month) January != '' @ year_pattern)), DInt 1)"
    using validate_handler_matches[where field = Month and Compile = Compile_article
        and Sprint = Sprint_month
        and val = "\<lparr>data = DInt 1, flagAddr = False, flagStickyRO = False, flagEmbedRO = False\<rparr>"
        and tag = year_pattern and m = "MatchString year_re"] t'' m3 g
    by (simp add: Kind_def flagRO_def Month_def)
  have seven: "FormatUint 7 = ''7''" by simp
  have i: "Sprintf_v Sprint_none ''int'' (DInt (- 7)) = ''-7''"
    using validate_handler_matches[where Sprint = Sprint_none and ty = "''int''" and n = "- 7"] k
      seven
    by simp
  from a b b' c d e f g h i show ?thesis by (simp add: prod_eq_iff)
qed

text \<open>
  C4 as stated fails on an unexported field: the pattern compiles and matches what
  \<^verbatim>\<open>%v\<close> prints for 1990, and the handler panics in \<^verbatim>\<open>value.Interface()\<close>.
\<close>

theorem unexported_field_is_not_validated:
  "handleValidateTag Compile_article Sprint_none
      \<lparr>data = DInt 1990, flagAddr = False, flagStickyRO = True, flagEmbedRO = False\<rparr> birthYear
     = (Panic ''reflect.Value.Interface: cannot return value obtained from unexported field or method'',
        DInt 1990)
   \<and> Compile_article year_pattern = Inr (MatchString year_re)
   \<and> MatchString year_re (Sprintf_v Sprint_none ''int'' (DInt 1990))
   \<and> Handle 2 (handleValidateTag Compile_article Sprint_none) (DStruct [(birthYear, DInt 1990)])
     = Some \<lparr>result = Panic ''reflect.Value.Interface: cannot return value obtained from unexported field or method'',
             calls = [(\<lparr>data = DInt 1990, flagAddr = False, flagStickyRO = True, flagEmbedRO = False\<rparr>, birthYear)],
             after = DStruct [(birthYear, DInt 1990)]\<rparr>"
proof -
  have "Compile_article year_pattern = Inr (MatchString year_re)"
    by (simp add: Compile_article_def)
  moreover have "MatchString year_re (Sprintf_v Sprint_none ''int'' (DInt 1990))" by code_simp
  moreover have "handleValidateTag Compile_article Sprint_none
      \<lparr>data = DInt 1990, flagAddr = False, flagStickyRO = True, flagEmbedRO = False\<rparr> birthYear
     = (Panic ''reflect.Value.Interface: cannot return value obtained from unexported field or method'',
        DInt 1990)"
    by (simp add: handleValidateTag_def Lookup_def birthYear_def Compile_article_def
          valueToString_def flagRO_def Kind_def)
  moreover have "Handle 2 (handleValidateTag Compile_article Sprint_none) (DStruct [(birthYear, DInt 1990)])
     = Some \<lparr>result = Panic ''reflect.Value.Interface: cannot return value obtained from unexported field or method'',
             calls = [(\<lparr>data = DInt 1990, flagAddr = False, flagStickyRO = True, flagEmbedRO = False\<rparr>, birthYear)],
             after = DStruct [(birthYear, DInt 1990)]\<rparr>"
    by (simp add: Handle_def ValueOf_def numeral_2_eq_2 Kind_def handleStruct_def Value_Field_def
          handleValidateTag_def Lookup_def birthYear_def Compile_article_def valueToString_def
          flagRO_def)
  ultimately show ?thesis by blast
qed

text \<open>
  C5, as amended. When the payload of the \<^verbatim>\<open>validate\<close> tag does not compile, the
  handler returns an error whose message is \<^verbatim>\<open>validation regexp syntax error: \<close>
  followed by the text of the syntax error, and leaves the field. The message is the same
  whatever the name of the field, and it is never a message of the mismatch error.
\<close>

theorem validate_handler_bad_pattern:
  assumes "Lookup (Tag field) ''validate'' = Some tag" and "Compile tag = Inl err"
  shows "handleValidateTag Compile Sprint val field
       = (Failure (errorString (''validation regexp syntax error: '' @ err)), data val)
     \<and> handleValidateTag Compile Sprint val (field\<lparr>Name := x\<rparr>)
       = (Failure (errorString (''validation regexp syntax error: '' @ err)), data val)
     \<and> ''validation regexp syntax error: '' @ err \<noteq> ''invalid field ('' @ rest"
  using assms by (simp add: handleValidateTag_def)

text \<open>A field \<^verbatim>\<open>Email\<close> with the pattern \<^verbatim>\<open>(\<close>.\<close>

theorem validate_handler_bad_pattern_witness:
  "Lookup (Tag Broken) ''validate'' = Some ''(''
   \<and> Compile_article ''('' = Inl ''error parsing regexp: missing closing ): `(`''
   \<and> handleValidateTag Compile_article Sprint_none
       \<lparr>data = DString ''lasse@tengen.dk'', flagAddr = False, flagStickyRO = False, flagEmbedRO = False\<rparr> Broken
     = (Failure (errorString
          ''validation regexp syntax error: error parsing regexp: missing closing ): `(`''),
        DString ''lasse@tengen.dk'')"
proof -
  have 1: "Lookup (Tag Broken) ''validate'' = Some ''(''" by (simp add: Lookup_def Broken_def)
  have 2: "Compile_article ''('' = Inl ''error parsing regexp: missing closing ): `(`''"
    by (simp add: Compile_article_def year_pattern_def email_pattern_def)
  from validate_handler_bad_pattern[of Broken "''(''" Compile_article, OF 1 2] 1 2
  show ?thesis by simp
qed

text \<open>
  C5 as stated fails: the error for the field \<^verbatim>\<open>Email\<close> with the pattern \<^verbatim>\<open>(\<close> holds
  the syntax problem and not the name of the field.
\<close>

theorem bad_pattern_error_omits_field_name:
  "handleValidateTag Compile_article Sprint_none
       \<lparr>data = DString ''lasse@tengen.dk'', flagAddr = False, flagStickyRO = False, flagEmbedRO = False\<rparr> Broken
     = (Failure (errorString
          ''validation regexp syntax error: error parsing regexp: missing closing ): `(`''),
        DString ''lasse@tengen.dk'')
   \<and> \<not> mentions (errorString
          ''validation regexp syntax error: error parsing regexp: missing closing ): `(`'')
        (Name Broken)
   \<and> mentions (errorString
          ''validation regexp syntax error: error parsing regexp: missing closing ): `(`'')
        ''missing closing )''"
  by code_simp


end
